theory Spec2Isabelle
  imports Complex_Main "HOL-Library.Multiset"
begin

section \<open>Equal-ratio channel selection of the MobileNetV2 pruning notebook\<close>

text \<open>
  The cell under verification, in the MobileNetV2 pruning notebook (\<^verbatim>\<open>src/unnamed/part_000\<close>,
  lines 787 to 795; the notebook says it is what
  \<^verbatim>\<open>enot.pruning.get_labels_for_equal_pruning\<close> implements):
  \<^verbatim>\<open>
  all_channel_indices_to_prune: List[int] = []

  for _, labels, criteria in iterate_over_gate_criteria(pruning_info):
      criteria: np.ndarray = np.array(criteria)
      prune_channels_num = int(len(criteria) * pruning_ratio)
      index_for_pruning = np.argsort(criteria)[:prune_channels_num]
      all_channel_indices_to_prune += np.array(labels)[index_for_pruning].tolist()
  \<close>
  with \<^verbatim>\<open>pruning_ratio = 0.433\<close>, a Python float, set in an earlier cell.
\<close>

subsection \<open>Exceptions\<close>

datatype error = ValueError | OverflowError | IndexError

subsection \<open>Python floats\<close>

text \<open>
  A Python float is an IEEE 754 binary64 number. \<open>Fin m e\<close> stands for the finite value
  \<open>m * 2 ^ e\<close>; every finite double has such a form with \<open>\<bar>m\<bar> < 2 ^ 53\<close> and
  \<open>- 1074 \<le> e \<le> 971\<close>. The sign of a zero is not kept: nothing in the cell observes it.
\<close>

datatype pyfloat = Fin int int | PInf | NInf | NaN

definition is_double :: "pyfloat \<Rightarrow> bool" where
  "is_double x =
     (case x of Fin m e \<Rightarrow> \<bar>m\<bar> < 2 ^ 53 \<and> - 1074 \<le> e \<and> e \<le> 971 | _ \<Rightarrow> True)"

definition fval :: "int \<Rightarrow> int \<Rightarrow> real" where
  "fval m e = (if 0 \<le> e then of_int m * 2 ^ nat e else of_int m / 2 ^ nat (- e))"

text \<open>The ratio is a finite double strictly between 0 and 1.\<close>

definition in_unit :: "pyfloat \<Rightarrow> bool" where
  "in_unit x = (case x of Fin m e \<Rightarrow> 0 < fval m e \<and> fval m e < 1 | _ \<Rightarrow> False)"

text \<open>Python's \<^verbatim>\<open>int.bit_length\<close> on a magnitude.\<close>

function bit_length :: "int \<Rightarrow> nat" where
  "bit_length n = (if n \<le> 0 then 0 else Suc (bit_length (n div 2)))"
  by pat_completeness auto
termination
  by (relation "measure nat") auto

declare bit_length.simps [simp del]

text \<open>
  \<open>round_half_even a s\<close> is \<open>a / 2 ^ s\<close> rounded to the nearest integer, a tie going to
  the even neighbour: the rounding mode of every float operation of CPython.
\<close>

definition round_half_even :: "int \<Rightarrow> nat \<Rightarrow> int" where
  "round_half_even a s =
     (let q = a div 2 ^ s; r = a mod 2 ^ s
      in if 2 ^ s < 2 * r \<or> (2 * r = 2 ^ s \<and> odd q) then q + 1 else q)"

text \<open>
  \<open>fround m e\<close> is the double nearest to the exact value \<open>m * 2 ^ e\<close>: the mantissa is cut
  to 53 bits (to fewer where the result is subnormal, below \<open>2 ^ - 1022\<close>), and a result
  of magnitude \<open>2 ^ 1024\<close> or more (the leading bit of \<open>q * 2 ^ e'\<close> has weight
  \<open>2 ^ (bit_length q + e' - 1)\<close>) is an infinity.
\<close>

definition fround :: "int \<Rightarrow> int \<Rightarrow> pyfloat" where
  "fround m e =
     (let s = nat (max (int (bit_length \<bar>m\<bar>) - 53) (- 1074 - e));
          q = round_half_even \<bar>m\<bar> s;
          e' = e + int s
      in if 0 < q \<and> 1024 < int (bit_length q) + e'
         then (if 0 < m then PInf else NInf)
         else Fin (sgn m * q) e')"

text \<open>
  \<^verbatim>\<open>int * float\<close> first converts the int to a float (\<^verbatim>\<open>PyLong_AsDouble\<close>, which
  raises OverflowError beyond the range of a double), then multiplies two floats. The
  conversion is exact below \<open>2 ^ 53\<close>; the results on the number of selected labels are
  stated for sequences shorter than that (a list of \<open>2 ^ 53\<close> entries would take 64 PiB).
\<close>

definition float_of_int :: "int \<Rightarrow> error + pyfloat" where
  "float_of_int n =
     (case fround n 0 of Fin m e \<Rightarrow> Inr (Fin m e) | _ \<Rightarrow> Inl OverflowError)"

definition fmul :: "pyfloat \<Rightarrow> pyfloat \<Rightarrow> pyfloat" where
  "fmul x y =
     (case (x, y) of
        (NaN, _) \<Rightarrow> NaN
      | (_, NaN) \<Rightarrow> NaN
      | (Fin m1 e1, Fin m2 e2) \<Rightarrow> fround (m1 * m2) (e1 + e2)
      | (Fin m e, PInf) \<Rightarrow> (if m = 0 then NaN else if 0 < m then PInf else NInf)
      | (Fin m e, NInf) \<Rightarrow> (if m = 0 then NaN else if 0 < m then NInf else PInf)
      | (PInf, Fin m e) \<Rightarrow> (if m = 0 then NaN else if 0 < m then PInf else NInf)
      | (NInf, Fin m e) \<Rightarrow> (if m = 0 then NaN else if 0 < m then NInf else PInf)
      | (PInf, PInf) \<Rightarrow> PInf
      | (NInf, NInf) \<Rightarrow> PInf
      | (PInf, NInf) \<Rightarrow> NInf
      | (NInf, PInf) \<Rightarrow> NInf)"

text \<open>\<^verbatim>\<open>int(x)\<close> on a float truncates towards zero, and raises on NaN and infinities.\<close>

definition py_int :: "pyfloat \<Rightarrow> error + int" where
  "py_int x =
     (case x of
        Fin m e \<Rightarrow>
          Inr (if 0 \<le> e then m * 2 ^ nat e else sgn m * (\<bar>m\<bar> div 2 ^ nat (- e)))
      | NaN \<Rightarrow> Inl ValueError
      | _ \<Rightarrow> Inl OverflowError)"

subsection \<open>numpy operations\<close>

text \<open>
  Criteria are importance scores; the cell only compares them, so a score is modelled by
  its real value (NaN and infinite scores are outside the model). \<^verbatim>\<open>np.argsort\<close> belongs to numpy,
  not to the notebook, and its default sort is not stable: it is a parameter of the
  model, and \<open>argsort_ok\<close> says what numpy promises about its result on one array, namely
  a permutation of the positions along which the values ascend.
\<close>

type_synonym argsort = "real list \<Rightarrow> nat list"

definition argsort_ok :: "argsort \<Rightarrow> real list \<Rightarrow> bool" where
  "argsort_ok argsort c =
     (length (argsort c) = length c \<and> distinct (argsort c) \<and>
      (\<forall>i \<in> set (argsort c). i < length c) \<and>
      sorted (map (\<lambda>i. c ! i) (argsort c)))"

text \<open>One such function, a stable one, to run the model on concrete arrays.\<close>

definition stable_argsort :: argsort where
  "stable_argsort c = sort_key (\<lambda>i. c ! i) [0..<length c]"

text \<open>\<^verbatim>\<open>xs[:k]\<close>: a negative stop counts from the end.\<close>

definition slice_to :: "'a list \<Rightarrow> int \<Rightarrow> 'a list" where
  "slice_to xs k = (if 0 \<le> k then take (nat k) xs else take (nat (int (length xs) + k)) xs)"

text \<open>
  \<^verbatim>\<open>np.array(labels)[index_for_pruning].tolist()\<close>: reading at an array of
  non-negative positions raises IndexError as soon as one of them is out of bounds.
\<close>

definition getitem :: "'a list \<Rightarrow> nat \<Rightarrow> 'a option" where
  "getitem xs i = (if i < length xs then Some (xs ! i) else None)"

definition take_labels :: "int list \<Rightarrow> nat list \<Rightarrow> error + int list" where
  "take_labels labels idx =
     (case those (map (getitem labels) idx) of
        None \<Rightarrow> Inl IndexError
      | Some ys \<Rightarrow> Inr ys)"

subsection \<open>The cell\<close>

text \<open>
  \<^verbatim>\<open>iterate_over_gate_criteria(pruning_info)\<close> is a call into the external framework;
  the model takes what it yields, a sequence of (tensor name, labels, criteria).
\<close>

type_synonym gate = "string \<times> int list \<times> real list"

text \<open>\<^verbatim>\<open>len(criteria) * pruning_ratio\<close>, a float.\<close>

definition len_times_ratio :: "real list \<Rightarrow> pyfloat \<Rightarrow> error + pyfloat" where
  "len_times_ratio criteria pruning_ratio =
     (case float_of_int (int (length criteria)) of
        Inl err \<Rightarrow> Inl err
      | Inr n \<Rightarrow> Inr (fmul n pruning_ratio))"

definition prune_channels_num :: "pyfloat \<Rightarrow> real list \<Rightarrow> error + int" where
  "prune_channels_num pruning_ratio criteria =
     (case len_times_ratio criteria pruning_ratio of
        Inl err \<Rightarrow> Inl err
      | Inr x \<Rightarrow> py_int x)"

definition index_for_pruning :: "argsort \<Rightarrow> real list \<Rightarrow> int \<Rightarrow> nat list" where
  "index_for_pruning argsort criteria k = slice_to (argsort criteria) k"

text \<open>The body of the loop: the list that one tensor adds to the output.\<close>

definition select_tensor :: "argsort \<Rightarrow> pyfloat \<Rightarrow> gate \<Rightarrow> error + int list" where
  "select_tensor argsort pruning_ratio g =
     (case g of (_, labels, criteria) \<Rightarrow>
        (case prune_channels_num pruning_ratio criteria of
           Inl err \<Rightarrow> Inl err
         | Inr k \<Rightarrow> take_labels labels (index_for_pruning argsort criteria k)))"

text \<open>
  The loop, with the output list as accumulator. An exception leaves the loop at once;
  the list keeps what the earlier tensors added.
\<close>

fun select_loop :: "argsort \<Rightarrow> pyfloat \<Rightarrow> gate list \<Rightarrow> int list \<Rightarrow> error option \<times> int list" where
  "select_loop argsort pruning_ratio [] acc = (None, acc)"
| "select_loop argsort pruning_ratio (g # gs) acc =
     (case select_tensor argsort pruning_ratio g of
        Inl err \<Rightarrow> (Some err, acc)
      | Inr sel \<Rightarrow> select_loop argsort pruning_ratio gs (acc @ sel))"

text \<open>The cell as a function of its two inputs: the selection, or the exception.\<close>

definition get_labels_for_equal_pruning :: "argsort \<Rightarrow> gate list \<Rightarrow> pyfloat \<Rightarrow> error + int list" where
  "get_labels_for_equal_pruning argsort pruning_info pruning_ratio =
     (case select_loop argsort pruning_ratio pruning_info [] of
        (None, out) \<Rightarrow> Inr out
      | (Some err, _) \<Rightarrow> Inl err)"

text \<open>
  The cell as a step of the notebook. The loop stands at the top level of the notebook,
  so \<^verbatim>\<open>_\<close>, \<^verbatim>\<open>labels\<close>, \<^verbatim>\<open>criteria\<close>, \<^verbatim>\<open>prune_channels_num\<close> and
  \<^verbatim>\<open>index_for_pruning\<close> are global variables of the notebook like the output list
  (\<^verbatim>\<open>labels\<close> is also the loop variable of the calibration and training cells). A
  variable holds a Python object; \<open>Opaque\<close> is any object the cell did not make.
\<close>

datatype pyobj =
  Unbound | Opaque | Str string | Ints "int list" | Scores "real list" | IntV int |
  Positions "nat list"

record notebook =
  pruning_info :: "gate list"
  pruning_ratio :: pyfloat
  all_channel_indices_to_prune :: "int list"
  underscore_var :: pyobj
  labels_var :: pyobj
  criteria_var :: pyobj
  prune_channels_num_var :: pyobj
  index_for_pruning_var :: pyobj




subsection \<open>The reference algorithm, in the words of the specification\<close>

text \<open>
  ``For each triple: compute \<^verbatim>\<open>k = floor(len(criteria) * r)\<close>; sort criteria ascending;
  take the indices of the k smallest criteria values; map those indices into the label
  sequence to obtain k labels.'' The ratio is ``a scalar in (0,1)'', and the floor is the
  floor of the product of two numbers.
\<close>

definition spec_k :: "real \<Rightarrow> real list \<Rightarrow> int" where
  "spec_k r criteria = \<lfloor>real (length criteria) * r\<rfloor>"

text \<open>
  \<open>spec_selects_k k g idx out\<close>, the steps after the first: the positions \<open>idx\<close> are \<open>k\<close>
  distinct positions of the criteria, the values there are the first \<open>k\<close> of the criteria
  sorted ascending, and \<open>out\<close> is the \<open>k\<close> labels at these positions.
\<close>

definition spec_selects_k :: "int \<Rightarrow> gate \<Rightarrow> nat list \<Rightarrow> int list \<Rightarrow> bool" where
  "spec_selects_k k g idx out =
     (case g of (_, labels, criteria) \<Rightarrow>
        0 \<le> k \<and> length idx = nat k \<and> distinct idx \<and>
        (\<forall>i \<in> set idx. i < length criteria) \<and>
        map (\<lambda>i. criteria ! i) idx = take (nat k) (sort criteria) \<and>
        out = map (\<lambda>i. labels ! i) idx \<and> length out = nat k)"

definition spec_selects :: "real \<Rightarrow> gate \<Rightarrow> nat list \<Rightarrow> int list \<Rightarrow> bool" where
  "spec_selects r g idx out =
     (case g of (_, labels, criteria) \<Rightarrow> spec_selects_k (spec_k r criteria) g idx out)"

section \<open>Rounding of the product\<close>

lemma bit_length_le: "0 \<le> n \<Longrightarrow> n < 2 ^ k \<Longrightarrow> bit_length n \<le> k"
proof (induction k arbitrary: n)
  case 0
  then have "n = 0" by simp
  then show ?case by (simp add: bit_length.simps)
next
  case (Suc k)
  show ?case
  proof (cases "n \<le> 0")
    case True
    then show ?thesis by (simp add: bit_length.simps)
  next
    case False
    have "n div 2 < 2 ^ k" using Suc.prems by simp
    moreover have "0 \<le> n div 2" using Suc.prems by simp
    ultimately have "bit_length (n div 2) \<le> k" using Suc.IH by simp
    with False show ?thesis by (subst bit_length.simps) simp
  qed
qed

lemma round_half_even_0: "round_half_even a 0 = a"
  by (simp add: round_half_even_def)

lemma round_half_even_ge_div: "a div 2 ^ s \<le> round_half_even a s"
  by (simp add: round_half_even_def Let_def)

lemma mult_pow2_le_div:
  fixes a c :: int
  assumes "c * 2 ^ s \<le> a" shows "c \<le> a div 2 ^ s"
proof -
  have "(c * 2 ^ s) div 2 ^ s \<le> a div 2 ^ s"
    using assms by (rule zdiv_mono1) simp
  then show ?thesis by simp
qed

lemma div_le_mult_pow2:
  fixes a c :: int
  assumes "a \<le> c * 2 ^ s" shows "a div 2 ^ s \<le> c"
proof -
  have "a div 2 ^ s \<le> (c * 2 ^ s) div 2 ^ s"
    using assms by (rule zdiv_mono1) simp
  then show ?thesis by simp
qed

lemma round_half_even_lower:
  assumes "c * 2 ^ s \<le> a" shows "c \<le> round_half_even a s"
  using mult_pow2_le_div [OF assms] round_half_even_ge_div [of a s] by linarith

lemma round_half_even_upper:
  assumes "a \<le> c * 2 ^ s" shows "round_half_even a s \<le> c"
proof (cases "a mod 2 ^ s = 0")
  case True
  then have "round_half_even a s = a div 2 ^ s"
    by (simp add: round_half_even_def Let_def)
  then show ?thesis using div_le_mult_pow2 [OF assms] by simp
next
  case False
  have p: "(0::int) < 2 ^ s" by simp
  have "0 \<le> a mod 2 ^ s" by simp
  with False have "0 < a mod 2 ^ s" by linarith
  moreover have "a = (a div 2 ^ s) * 2 ^ s + a mod 2 ^ s"
    by (rule div_mult_mod_eq [symmetric])
  ultimately have "(a div 2 ^ s) * 2 ^ s < a" by linarith
  with assms have "(a div 2 ^ s) * 2 ^ s < c * 2 ^ s" by linarith
  then have "a div 2 ^ s < c" using p by (simp add: mult_less_cancel_right)
  moreover have "round_half_even a s \<le> a div 2 ^ s + 1"
    by (simp add: round_half_even_def Let_def)
  ultimately show ?thesis by linarith
qed

lemma fround_exact:
  assumes "0 \<le> n" "n < 2 ^ 53"
  shows "fround n 0 = Fin n 0"
proof -
  have b: "bit_length \<bar>n\<bar> \<le> 53" using assms by (intro bit_length_le) auto
  then have s: "nat (max (int (bit_length \<bar>n\<bar>) - 53) (- 1074 - 0)) = 0" by simp
  have "fround n 0 = (if 0 < \<bar>n\<bar> \<and> 1024 < int (bit_length \<bar>n\<bar>) then (if 0 < n then PInf else NInf) else Fin (sgn n * \<bar>n\<bar>) 0)"
    unfolding fround_def Let_def s by (simp add: round_half_even_0)
  also have "\<dots> = Fin n 0" using b assms by (simp add: sgn_if)
  finally show ?thesis .
qed

lemma float_of_int_exact:
  assumes "0 \<le> n" "n < 2 ^ 53"
  shows "float_of_int n = Inr (Fin n 0)"
  by (simp add: float_of_int_def fround_exact [OF assms])


lemma in_unitD:
  assumes "in_unit (Fin m e)"
  shows "0 < m" and "e < 0" and "m < 2 ^ nat (- e)"
proof -
  from assms have v: "0 < fval m e" "fval m e < 1" by (simp_all add: in_unit_def)
  show m: "0 < m"
    using v(1) by (auto simp: fval_def zero_less_mult_iff zero_less_divide_iff split: if_splits)
  show e: "e < 0"
  proof (rule ccontr)
    assume "\<not> e < 0"
    then have "fval m e = of_int (m * 2 ^ nat e)" by (simp add: fval_def)
    moreover have "1 \<le> m * 2 ^ nat e" using m by (simp add: int_one_le_iff_zero_less)
    ultimately show False using v(2) by (metis of_int_1_le_iff not_less)
  qed
  from e v(2) have "real_of_int m < 2 ^ nat (- e)" by (simp add: fval_def)
  then have "real_of_int m < of_int (2 ^ nat (- e))" by simp
  then show "m < 2 ^ nat (- e)" by (simp only: of_int_less_iff)
qed

lemma product_rounding:
  fixes n m :: int and E :: nat
  assumes n: "0 \<le> n" "n < 2 ^ 53" and m: "0 < m" "m < 2 ^ E"
  shows "\<exists>q s. s \<le> E \<and> fround (n * m) (- int E) = Fin q (int s - int E) \<and>
           0 \<le> q \<and> q \<le> n * 2 ^ (E - s) \<and>
           (n * m) div 2 ^ E * 2 ^ (E - s) \<le> q \<and>
           (\<forall>g. n * m \<le> g * 2 ^ E \<longrightarrow> q \<le> g * 2 ^ (E - s))"
proof -
  define x where "x = n * m"
  define s where "s = nat (max (int (bit_length \<bar>x\<bar>) - 53) (- 1074 - (- int E)))"
  define q where "q = round_half_even \<bar>x\<bar> s"
  have x0: "0 \<le> x" using n m by (simp add: x_def)
  have "x \<le> n * 2 ^ E" unfolding x_def using n m by (intro mult_left_mono) auto
  also have "\<dots> < 2 ^ 53 * 2 ^ E" using n by simp
  finally have xlt: "x < 2 ^ (53 + E)" by (simp add: power_add)
  have xle: "x \<le> n * 2 ^ E" unfolding x_def using n m by (intro mult_left_mono) auto
  have "bit_length \<bar>x\<bar> \<le> 53 + E" using x0 xlt by (intro bit_length_le) auto
  then have sE: "s \<le> E" by (simp add: s_def)
  have pw: "(2::int) ^ E = 2 ^ (E - s) * 2 ^ s"
    using sE by (simp flip: power_add)
  have q0: "0 \<le> q" unfolding q_def using x0 by (intro round_half_even_lower) simp
  have qn: "q \<le> n * 2 ^ (E - s)" unfolding q_def
    using x0 xle by (intro round_half_even_upper) (simp add: pw mult.assoc)
  have ql: "x div 2 ^ E * 2 ^ (E - s) \<le> q" unfolding q_def
  proof (rule round_half_even_lower)
    have "0 \<le> x mod 2 ^ E" by simp
    moreover have "x = x div 2 ^ E * 2 ^ E + x mod 2 ^ E"
      by (rule div_mult_mod_eq [symmetric])
    ultimately have "x div 2 ^ E * 2 ^ E \<le> x" by linarith
    then show "x div 2 ^ E * 2 ^ (E - s) * 2 ^ s \<le> \<bar>x\<bar>" using x0 by (simp add: pw mult.assoc)
  qed
  have qu: "q \<le> g * 2 ^ (E - s)" if "x \<le> g * 2 ^ E" for g
    unfolding q_def using that x0 by (intro round_half_even_upper) (simp add: pw mult.assoc)
  have "q < 2 ^ 53 * 2 ^ (E - s)"
    using qn n by (smt (verit) mult_strict_right_mono zero_less_power)
  then have "bit_length q \<le> 53 + (E - s)" using q0 by (intro bit_length_le) (auto simp: power_add)
  then have "int (bit_length q) + (- int E + int s) \<le> 53" using sE by linarith
  then have nov: "\<not> (0 < q \<and> 1024 < int (bit_length q) + (- int E + int s))" by linarith
  have sq: "sgn x * q = q"
  proof (cases "x = 0")
    case True
    then have "q \<le> 0" unfolding q_def by (intro round_half_even_upper) simp
    with q0 show ?thesis by simp
  next
    case False
    with x0 show ?thesis by (simp add: sgn_if)
  qed
  have "fround x (- int E) = Fin q (int s - int E)"
    unfolding fround_def Let_def s_def [symmetric] q_def [symmetric] using nov sq by simp
  with sE q0 qn ql qu show ?thesis unfolding x_def by blast
qed


lemma py_int_nonpos_exp:
  assumes "0 \<le> q" "s \<le> E"
  shows "py_int (Fin q (int s - int E)) = Inr (q div 2 ^ (E - s))"
    and "\<lfloor>fval q (int s - int E)\<rfloor> = q div 2 ^ (E - s)"
proof -
  have n: "nat (int E - int s) = E - s" using assms(2) by simp
  show "py_int (Fin q (int s - int E)) = Inr (q div 2 ^ (E - s))"
    using assms by (cases "s = E") (auto simp: py_int_def n sgn_if)
  have "\<lfloor>real_of_int q / real_of_int (2 ^ (E - s))\<rfloor> = q div 2 ^ (E - s)"
    by (rule floor_divide_of_int_eq)
  then show "\<lfloor>fval q (int s - int E)\<rfloor> = q div 2 ^ (E - s)"
    using assms by (cases "s = E") (auto simp: fval_def n)
qed

lemma len_times_ratio_exact:
  assumes "length c < 2 ^ 53"
  shows "len_times_ratio c (Fin m e) = Inr (fround (int (length c) * m) e)"
proof -
  have n: "0 \<le> int (length c)" "int (length c) < 2 ^ 53"
    using assms by (simp_all flip: of_nat_less_iff)
  show ?thesis by (simp add: len_times_ratio_def float_of_int_exact [OF n] fmul_def)
qed

lemma prune_channels_num_unit:
  assumes r: "in_unit (Fin m e)" and len: "length c < 2 ^ 53"
  shows "\<exists>q e' k. len_times_ratio c (Fin m e) = Inr (Fin q e') \<and> 0 \<le> q \<and>
           prune_channels_num (Fin m e) c = Inr k \<and> k = \<lfloor>fval q e'\<rfloor> \<and>
           0 \<le> k \<and> k \<le> int (length c) \<and>
           \<lfloor>real (length c) * fval m e\<rfloor> \<le> k \<and> k \<le> \<lceil>real (length c) * fval m e\<rceil>"
proof -
  define E where "E = nat (- e)"
  define n where "n = int (length c)"
  note u = in_unitD [OF r]
  have e: "e = - int E" using u(2) by (simp add: E_def)
  have n: "0 \<le> n" "n < 2 ^ 53" using len by (simp_all add: n_def flip: of_nat_less_iff)
  have m: "0 < m" "m < 2 ^ E" using u by (simp_all add: E_def)
  from product_rounding [OF n m] obtain q s where
    sE: "s \<le> E" and fr: "fround (n * m) (- int E) = Fin q (int s - int E)" and
    q0: "0 \<le> q" and qn: "q \<le> n * 2 ^ (E - s)" and
    ql: "(n * m) div 2 ^ E * 2 ^ (E - s) \<le> q" and
    qu: "\<And>g. n * m \<le> g * 2 ^ E \<Longrightarrow> q \<le> g * 2 ^ (E - s)"
    by blast
  define k where "k = q div 2 ^ (E - s)"
  have mul: "len_times_ratio c (Fin m e) = Inr (Fin q (int s - int E))"
    using len_times_ratio_exact [OF len, of m e] by (simp add: e fr flip: n_def)
  have pk: "prune_channels_num (Fin m e) c = Inr k"
    by (simp add: prune_channels_num_def mul py_int_nonpos_exp(1) [OF q0 sE] k_def)
  have kf: "k = \<lfloor>fval q (int s - int E)\<rfloor>"
    by (simp add: py_int_nonpos_exp(2) [OF q0 sE] k_def)
  have k0: "0 \<le> k" using q0 by (simp add: k_def pos_imp_zdiv_nonneg_iff)
  have kn: "k \<le> n" unfolding k_def using qn by (rule div_le_mult_pow2)
  have ex: "real (length c) * fval m e = real_of_int (n * m) / real_of_int (2 ^ E)"
    using u(2) by (simp add: fval_def n_def E_def)
  have "\<lfloor>real (length c) * fval m e\<rfloor> = (n * m) div 2 ^ E"
    unfolding ex by (rule floor_divide_of_int_eq)
  moreover have "(n * m) div 2 ^ E \<le> k" unfolding k_def using ql by (rule mult_pow2_le_div)
  ultimately have fl: "\<lfloor>real (length c) * fval m e\<rfloor> \<le> k" by simp
  define g where "g = \<lceil>real (length c) * fval m e\<rceil>"
  have "real_of_int (n * m) / real_of_int (2 ^ E) \<le> of_int g"
    unfolding g_def ex [symmetric] by (rule le_of_int_ceiling)
  then have "real_of_int (n * m) \<le> of_int g * real_of_int (2 ^ E)"
    by (simp add: pos_divide_le_eq)
  then have "real_of_int (n * m) \<le> real_of_int (g * 2 ^ E)" by simp
  then have "n * m \<le> g * 2 ^ E" by (simp only: of_int_le_iff)
  then have "q \<le> g * 2 ^ (E - s)" by (rule qu)
  then have ce: "k \<le> g" unfolding k_def by (rule div_le_mult_pow2)
  show ?thesis
    using mul q0 pk kf k0 kn fl ce unfolding n_def g_def by blast
qed

section \<open>Label lookup, slices and argsort\<close>

lemma those_getitem:
  "(\<And>i. i \<in> set idx \<Longrightarrow> i < length xs) \<Longrightarrow>
     those (map (getitem xs) idx) = Some (map (\<lambda>i. xs ! i) idx)"
  by (induction idx) (simp_all add: getitem_def)

lemma those_getitem_None:
  "i \<in> set idx \<Longrightarrow> length xs \<le> i \<Longrightarrow> those (map (getitem xs) idx) = None"
  by (induction idx) (auto simp: getitem_def split: option.splits)

lemma take_labels_Inr:
  "(\<And>i. i \<in> set idx \<Longrightarrow> i < length labels) \<Longrightarrow>
     take_labels labels idx = Inr (map (\<lambda>i. labels ! i) idx)"
  by (simp add: take_labels_def those_getitem)

lemma take_labels_Inl:
  "i \<in> set idx \<Longrightarrow> length labels \<le> i \<Longrightarrow> take_labels labels idx = Inl IndexError"
  by (simp add: take_labels_def those_getitem_None)

lemma take_labels_cases:
  "take_labels labels idx =
     (if \<exists>i\<in>set idx. length labels \<le> i then Inl IndexError
      else Inr (map (\<lambda>i. labels ! i) idx))"
proof (cases "\<exists>i\<in>set idx. length labels \<le> i")
  case True
  then show ?thesis using take_labels_Inl by auto
next
  case False
  then have "\<And>i. i \<in> set idx \<Longrightarrow> i < length labels" by (meson not_le)
  then show ?thesis using False by (simp add: take_labels_Inr)
qed

text \<open>A slice \<open>xs[:k]\<close> is a prefix of \<open>xs\<close>.\<close>

lemma slice_to_take: "\<exists>p. slice_to xs k = take p xs"
  unfolding slice_to_def by (cases "0 \<le> k") auto

lemma set_slice_to: "set (slice_to xs k) \<subseteq> set xs"
  by (simp add: slice_to_def set_take_subset)

lemma length_slice_to_le: "length (slice_to xs k) \<le> length xs"
  using slice_to_take [of xs k] by auto

lemma length_slice_to: "0 \<le> k \<Longrightarrow> k \<le> int (length xs) \<Longrightarrow> length (slice_to xs k) = nat k"
  by (simp add: slice_to_def)

lemma distinct_slice_to: "distinct xs \<Longrightarrow> distinct (slice_to xs k)"
  by (simp add: slice_to_def)

lemma argsort_ok_set:
  assumes "argsort_ok A c"
  shows "set (A c) = {..<length c}"
proof -
  from assms have l: "length (A c) = length c" and d: "distinct (A c)"
    and b: "\<forall>i\<in>set (A c). i < length c"
    by (simp_all add: argsort_ok_def)
  have "set (A c) \<subseteq> {..<length c}" using b by auto
  moreover have "card (set (A c)) = card {..<length c}"
    using d l by (simp add: distinct_card)
  ultimately show ?thesis by (simp add: card_subset_eq)
qed

lemma index_for_pruning_bound:
  assumes "argsort_ok A c" and "i \<in> set (index_for_pruning A c k)"
  shows "i < length c"
  using assms set_slice_to [of "A c" k] by (auto simp: index_for_pruning_def argsort_ok_def)

lemma index_for_pruning_distinct:
  "argsort_ok A c \<Longrightarrow> distinct (index_for_pruning A c k)"
  by (simp add: index_for_pruning_def argsort_ok_def distinct_slice_to)

lemma index_for_pruning_length:
  "argsort_ok A c \<Longrightarrow> 0 \<le> k \<Longrightarrow> k \<le> int (length c) \<Longrightarrow>
     length (index_for_pruning A c k) = nat k"
  by (simp add: index_for_pruning_def argsort_ok_def length_slice_to)

lemma index_for_pruning_lowest:
  assumes ok: "argsort_ok A c" and i: "i \<in> set (index_for_pruning A c k)"
    and j: "j < length c" "j \<notin> set (index_for_pruning A c k)"
  shows "c ! i \<le> c ! j"
proof -
  obtain p where idx: "index_for_pruning A c k = take p (A c)"
    unfolding index_for_pruning_def using slice_to_take by blast
  have "j \<in> set (A c)" using argsort_ok_set [OF ok] j(1) by simp
  then have "j \<in> set (take p (A c)) \<union> set (drop p (A c))"
    by (simp flip: set_append)
  with j(2) have jd: "j \<in> set (drop p (A c))" by (simp add: idx)
  have "sorted (map (\<lambda>i. c ! i) (take p (A c) @ drop p (A c)))"
    using ok by (simp add: argsort_ok_def)
  then have "\<forall>x\<in>set (map (\<lambda>i. c ! i) (take p (A c))). \<forall>y\<in>set (map (\<lambda>i. c ! i) (drop p (A c))). x \<le> y"
    unfolding map_append sorted_append by blast
  then show ?thesis using i jd by (simp add: idx)
qed

lemma argsort_ok_sort:
  assumes "argsort_ok A c"
  shows "map (\<lambda>i. c ! i) (A c) = sort c"
proof -
  have d: "distinct (A c)" and s: "sorted (map (\<lambda>i. c ! i) (A c))"
    using assms by (simp_all add: argsort_ok_def)
  have "set (A c) = set [0..<length c]"
    by (simp add: argsort_ok_set [OF assms] atLeast0LessThan)
  then have "mset (A c) = mset [0..<length c]"
    by (rule iffD1 [OF set_eq_iff_mset_eq_distinct [OF d distinct_upt]])
  then have "image_mset (\<lambda>i. c ! i) (mset (A c)) = image_mset (\<lambda>i. c ! i) (mset [0..<length c])"
    by (rule arg_cong)
  then have "mset (map (\<lambda>i. c ! i) (A c)) = mset (map (\<lambda>i. c ! i) [0..<length c])"
    by (simp only: mset_map)
  also have "map (\<lambda>i. c ! i) [0..<length c] = c" by (rule map_nth)
  finally have "mset (map (\<lambda>i. c ! i) (A c)) = mset c" .
  from properties_for_sort [OF this s] show ?thesis by (rule sym)
qed

lemma stable_argsort_ok: "argsort_ok stable_argsort c"
  by (simp add: argsort_ok_def stable_argsort_def)

lemma select_tensor_Inr:
  assumes "select_tensor A r (nm, labels, c) = Inr out"
  shows "\<exists>k. prune_channels_num r c = Inr k \<and>
           (\<forall>i \<in> set (index_for_pruning A c k). i < length labels) \<and>
           out = map (\<lambda>i. labels ! i) (index_for_pruning A c k)"
proof -
  from assms obtain k where k: "prune_channels_num r c = Inr k"
    and t: "take_labels labels (index_for_pruning A c k) = Inr out"
    by (auto simp: select_tensor_def split: sum.splits)
  from t have n: "\<not> (\<exists>i\<in>set (index_for_pruning A c k). length labels \<le> i)"
    and o: "out = map (\<lambda>i. labels ! i) (index_for_pruning A c k)"
    by (simp_all add: take_labels_cases split: if_splits)
  from n have "\<forall>i \<in> set (index_for_pruning A c k). i < length labels"
    by (meson not_le)
  with k o show ?thesis by blast
qed

section \<open>The loop\<close>

lemma select_loop_acc:
  "select_loop A r gs acc =
     (case select_loop A r gs [] of (raised, out) \<Rightarrow> (raised, acc @ out))"
proof (induction gs arbitrary: acc)
  case Nil
  show ?case by simp
next
  case (Cons g gs)
  show ?case
  proof (cases "select_tensor A r g")
    case (Inl err)
    then show ?thesis by simp
  next
    case (Inr sel)
    have "select_loop A r (g # gs) acc = select_loop A r gs (acc @ sel)"
      by (simp add: Inr)
    also have "\<dots> = (case select_loop A r gs [] of (raised, out) \<Rightarrow> (raised, (acc @ sel) @ out))"
      by (rule Cons.IH)
    finally show ?thesis
      by (simp add: Inr Cons.IH [of sel] split: prod.splits)
  qed
qed

lemma get_labels_Nil: "get_labels_for_equal_pruning A [] r = Inr []"
  by (simp add: get_labels_for_equal_pruning_def)

lemma get_labels_Cons:
  "get_labels_for_equal_pruning A (g # gs) r =
     (case select_tensor A r g of
        Inl err \<Rightarrow> Inl err
      | Inr sel \<Rightarrow>
          (case get_labels_for_equal_pruning A gs r of
             Inl err \<Rightarrow> Inl err
           | Inr rest \<Rightarrow> Inr (sel @ rest)))"
proof (cases "select_tensor A r g")
  case (Inl err)
  then show ?thesis by (simp add: get_labels_for_equal_pruning_def)
next
  case (Inr sel)
  then show ?thesis
    by (simp add: get_labels_for_equal_pruning_def select_loop_acc [of A r gs sel]
        split: prod.splits option.splits)
qed

lemma get_labels_single: "get_labels_for_equal_pruning A [g] r = select_tensor A r g"
  by (simp add: get_labels_Cons get_labels_Nil split: sum.splits)

lemma get_labels_append:
  "get_labels_for_equal_pruning A (gs1 @ gs2) r =
     (case get_labels_for_equal_pruning A gs1 r of
        Inl err \<Rightarrow> Inl err
      | Inr out1 \<Rightarrow>
          (case get_labels_for_equal_pruning A gs2 r of
             Inl err \<Rightarrow> Inl err
           | Inr out2 \<Rightarrow> Inr (out1 @ out2)))"
  by (induction gs1) (simp_all add: get_labels_Nil get_labels_Cons split: sum.splits)

lemma get_labels_concat:
  "map (select_tensor A r) gs = map Inr sels \<Longrightarrow>
     get_labels_for_equal_pruning A gs r = Inr (concat sels)"
proof (induction gs arbitrary: sels)
  case Nil
  then show ?case by (simp add: get_labels_Nil)
next
  case (Cons g gs)
  then obtain sel rest where s: "sels = sel # rest" "select_tensor A r g = Inr sel"
    "map (select_tensor A r) gs = map Inr rest"
    by (cases sels) auto
  then show ?case using Cons.IH [of rest] by (simp add: get_labels_Cons)
qed

lemma get_labels_Inr:
  "get_labels_for_equal_pruning A gs r = Inr out \<Longrightarrow>
     \<exists>sels. map (select_tensor A r) gs = map Inr sels \<and> out = concat sels"
proof (induction gs arbitrary: out)
  case Nil
  then show ?case by (simp add: get_labels_Nil)
next
  case (Cons g gs)
  from Cons.prems obtain sel rest where s: "select_tensor A r g = Inr sel"
    "get_labels_for_equal_pruning A gs r = Inr rest" "out = sel @ rest"
    by (auto simp: get_labels_Cons split: sum.splits)
  from Cons.IH [OF s(2)] obtain sels where
    "map (select_tensor A r) gs = map Inr sels" "rest = concat sels" by blast
  then have "map (select_tensor A r) (g # gs) = map Inr (sel # sels) \<and> out = concat (sel # sels)"
    using s by simp
  then show ?case by blast
qed

lemma select_tensor_name: "select_tensor A r (nm, labels, c) = select_tensor A r (nm', labels, c)"
  by (simp add: select_tensor_def)

section \<open>Counts\<close>

lemma fround_zero: "\<exists>e'. fround 0 e = Fin 0 e'"
  by (simp add: fround_def Let_def round_half_even_def bit_length.simps)

lemma py_int_zero: "py_int (Fin 0 e) = Inr 0"
  by (simp add: py_int_def)

lemma prune_channels_num_ratio_zero:
  assumes "length c < 2 ^ 53"
  shows "prune_channels_num (Fin 0 e) c = Inr 0"
proof -
  obtain e' where "fround 0 e = Fin 0 e'" using fround_zero by blast
  then show ?thesis
    by (simp add: prune_channels_num_def len_times_ratio_exact [OF assms] py_int_zero)
qed

lemma prune_channels_num_empty: "prune_channels_num (Fin m e) [] = Inr 0"
proof -
  have l: "length ([] :: real list) < 2 ^ 53" by simp
  obtain e' where "fround 0 e = Fin 0 e'" using fround_zero by blast
  then show ?thesis
    using len_times_ratio_exact [OF l, of m e] by (simp add: prune_channels_num_def py_int_zero)
qed

lemma select_tensor_zero:
  assumes "prune_channels_num r c = Inr 0"
  shows "select_tensor A r (nm, labels, c) = Inr []"
  by (simp add: select_tensor_def assms index_for_pruning_def slice_to_def take_labels_def)

lemma select_tensor_length_le:
  assumes "argsort_ok A c" and "select_tensor A r (nm, labels, c) = Inr out"
  shows "length out \<le> length c"
proof -
  from select_tensor_Inr [OF assms(2)] obtain k where
    "out = map (\<lambda>i. labels ! i) (index_for_pruning A c k)" by blast
  then have "length out = length (slice_to (A c) k)" by (simp add: index_for_pruning_def)
  also have "\<dots> \<le> length (A c)" by (rule length_slice_to_le)
  also have "\<dots> = length c" using assms(1) by (simp add: argsort_ok_def)
  finally show ?thesis .
qed

section \<open>The example array of the specification\<close>

lemma argsort_example:
  assumes "argsort_ok A [0.5, 0.1, 0.9, 0.3]"
  shows "take 2 (A [0.5, 0.1, 0.9, 0.3]) = [1, 3]"
proof -
  define c :: "real list" where "c = [0.5, 0.1, 0.9, 0.3]"
  have ok: "argsort_ok A c" using assms by (simp add: c_def)
  have len: "length (A c) = 4" using ok by (simp add: argsort_ok_def c_def)
  have srt: "sort c = [0.1, 0.3, 0.5, 0.9]" unfolding c_def by code_simp
  have vals: "map (\<lambda>i. c ! i) (A c) = [0.1, 0.3, 0.5, 0.9]"
    using argsort_ok_sort [OF ok] srt by simp
  have bound: "A c ! j < 4" if "j < 4" for j
  proof -
    have "A c ! j \<in> set (A c)" using that len by simp
    then have "A c ! j < length c" using ok by (simp add: argsort_ok_def)
    then show ?thesis by (simp add: c_def)
  qed
  have at: "c ! (A c ! j) = [0.1, 0.3, 0.5, 0.9] ! j" if "j < 4" for j
    using vals that len by (metis nth_map)
  have pick: "i = 1" if "i < 4" "c ! i = 0.1" for i
  proof -
    from that(1) consider "i = 0" | "i = 1" | "i = 2" | "i = 3" by linarith
    then show ?thesis using that(2) by cases (simp_all add: c_def)
  qed
  have pick3: "i = 3" if "i < 4" "c ! i = 0.3" for i
  proof -
    from that(1) consider "i = 0" | "i = 1" | "i = 2" | "i = 3" by linarith
    then show ?thesis using that(2) by cases (simp_all add: c_def)
  qed
  have a0: "A c ! 0 = 1" using bound [of 0] at [of 0] by (intro pick) simp_all
  have a1: "A c ! 1 = 3" using bound [of 1] at [of 1] by (intro pick3) simp_all
  have "take 2 (A c) = [A c ! 0, A c ! 1]"
    using len by (simp add: take_Suc_conv_app_nth numeral_2_eq_2)
  then show ?thesis using a0 a1 by (simp add: c_def)
qed

section \<open>A ratio between 0 and 1\<close>

lemma select_tensor_unit:
  assumes r: "in_unit (Fin m e)" and len: "length c < 2 ^ 53"
    and ok: "argsort_ok A c" and lab: "length c \<le> length labels"
  shows "\<exists>q e' k. len_times_ratio c (Fin m e) = Inr (Fin q e') \<and> 0 \<le> q \<and>
           prune_channels_num (Fin m e) c = Inr k \<and> k = \<lfloor>fval q e'\<rfloor> \<and>
           0 \<le> k \<and> k \<le> int (length c) \<and>
           \<lfloor>real (length c) * fval m e\<rfloor> \<le> k \<and> k \<le> \<lceil>real (length c) * fval m e\<rceil> \<and>
           length (index_for_pruning A c k) = nat k \<and>
           select_tensor A (Fin m e) (nm, labels, c) =
             Inr (map (\<lambda>i. labels ! i) (index_for_pruning A c k))"
proof -
  from prune_channels_num_unit [OF r len] obtain q e' k where
    p: "len_times_ratio c (Fin m e) = Inr (Fin q e')" "0 \<le> q"
      "prune_channels_num (Fin m e) c = Inr k" "k = \<lfloor>fval q e'\<rfloor>"
      "0 \<le> k" "k \<le> int (length c)"
      "\<lfloor>real (length c) * fval m e\<rfloor> \<le> k" "k \<le> \<lceil>real (length c) * fval m e\<rceil>"
    by blast
  have l: "length (index_for_pruning A c k) = nat k"
    using ok p(5,6) by (rule index_for_pruning_length)
  have "take_labels labels (index_for_pruning A c k) =
      Inr (map (\<lambda>i. labels ! i) (index_for_pruning A c k))"
  proof (rule take_labels_Inr)
    fix i assume "i \<in> set (index_for_pruning A c k)"
    with ok have "i < length c" by (rule index_for_pruning_bound)
    with lab show "i < length labels" by simp
  qed
  then have s: "select_tensor A (Fin m e) (nm, labels, c) =
      Inr (map (\<lambda>i. labels ! i) (index_for_pruning A c k))"
    by (simp add: select_tensor_def p(3))
  show ?thesis using p l s by blast
qed

section \<open>Exceptions of the cell\<close>

lemma fround_not_NaN: "fround m e \<noteq> NaN"
  by (simp add: fround_def Let_def)

lemma py_int_error: "py_int x = Inl err \<Longrightarrow> err \<noteq> IndexError"
  by (auto simp: py_int_def split: pyfloat.splits)

lemma float_of_int_error: "float_of_int n = Inl err \<Longrightarrow> err = OverflowError"
  by (auto simp: float_of_int_def split: pyfloat.splits)

lemma prune_channels_num_error:
  assumes "prune_channels_num r c = Inl err"
  shows "err \<noteq> IndexError"
proof (cases "len_times_ratio c r")
  case (Inl a)
  then have "err = a" using assms by (simp add: prune_channels_num_def)
  moreover have "a = OverflowError"
    using Inl float_of_int_error [of "int (length c)"]
    by (auto simp: len_times_ratio_def split: sum.splits)
  ultimately show ?thesis by simp
next
  case (Inr x)
  then have "py_int x = Inl err" using assms by (simp add: prune_channels_num_def)
  then show ?thesis by (rule py_int_error)
qed

lemma select_tensor_Inl_iff:
  "select_tensor A r (nm, labels, c) = Inl err \<longleftrightarrow>
     prune_channels_num r c = Inl err \<or>
     (err = IndexError \<and>
      (\<exists>k. prune_channels_num r c = Inr k \<and>
         (\<exists>i \<in> set (index_for_pruning A c k). length labels \<le> i)))"
  by (cases "prune_channels_num r c")
    (auto simp: select_tensor_def take_labels_cases)

lemma select_tensor_no_IndexError:
  assumes "argsort_ok A c" and "length c \<le> length labels"
    and "select_tensor A r (nm, labels, c) = Inl err"
  shows "prune_channels_num r c = Inl err \<and> err \<noteq> IndexError"
proof -
  have "\<not> (\<exists>i \<in> set (index_for_pruning A c k). length labels \<le> i)" for k
    using index_for_pruning_bound [OF assms(1), of _ k] assms(2) by fastforce
  with assms(3) have "prune_channels_num r c = Inl err"
    by (simp add: select_tensor_Inl_iff)
  then show ?thesis using prune_channels_num_error by blast
qed

lemma prune_channels_num_finite_error:
  assumes "length c < 2 ^ 53" and "prune_channels_num (Fin m e) c = Inl err"
  shows "err = OverflowError \<and>
         (fround (int (length c) * m) e = PInf \<or> fround (int (length c) * m) e = NInf)"
  using assms(2) fround_not_NaN [of "int (length c) * m" e]
  by (cases "fround (int (length c) * m) e")
    (simp_all add: prune_channels_num_def len_times_ratio_exact [OF assms(1)] py_int_def)

lemma get_labels_Inl_iff:
  "(\<exists>err. get_labels_for_equal_pruning A gs r = Inl err) \<longleftrightarrow>
     (\<exists>g \<in> set gs. \<exists>err. select_tensor A r g = Inl err)"
  by (induction gs) (auto simp: get_labels_Nil get_labels_Cons split: sum.splits)

section \<open>Every tensor of a run\<close>

lemma selections_exist:
  assumes "\<And>g. g \<in> set gs \<Longrightarrow> \<exists>out. select_tensor A r g = Inr out \<and> P g out"
  shows "\<exists>sels. map (select_tensor A r) gs = map Inr sels \<and> list_all2 P gs sels"
  using assms
proof (induction gs)
  case Nil
  show ?case by simp
next
  case (Cons g gs)
  from Cons.prems obtain out where o: "select_tensor A r g = Inr out" "P g out"
    by (meson list.set_intros(1))
  from Cons obtain sels where s: "map (select_tensor A r) gs = map Inr sels" "list_all2 P gs sels"
    by (meson list.set_intros(2))
  have "map (select_tensor A r) (g # gs) = map Inr (out # sels) \<and> list_all2 P (g # gs) (out # sels)"
    using o s by simp
  then show ?case by blast
qed

lemma index_for_pruning_values:
  assumes "argsort_ok A c" and "0 \<le> k"
  shows "map (\<lambda>i. c ! i) (index_for_pruning A c k) = take (nat k) (sort c)"
proof -
  have "map (\<lambda>i. c ! i) (index_for_pruning A c k) = take (nat k) (map (\<lambda>i. c ! i) (A c))"
    using assms(2) by (simp add: index_for_pruning_def slice_to_def take_map)
  then show ?thesis by (simp only: argsort_ok_sort [OF assms(1)])
qed

lemma length_concat_sum: "length (concat xss) = sum_list (map length xss)"
  by (induction xss) simp_all

lemma spec_selects_k_unit:
  assumes r: "in_unit (Fin m e)" and len: "length c < 2 ^ 53"
    and ok: "argsort_ok A c" and lab: "length labels = length c"
  shows "\<exists>k out. prune_channels_num (Fin m e) c = Inr k \<and>
           spec_k (fval m e) c \<le> k \<and> k \<le> \<lceil>real (length c) * fval m e\<rceil> \<and>
           select_tensor A (Fin m e) (nm, labels, c) = Inr out \<and>
           spec_selects_k k (nm, labels, c) (index_for_pruning A c k) out"
proof -
  have "length c \<le> length labels" using lab by simp
  from select_tensor_unit [OF r len ok this, of nm] obtain k where
    p: "prune_channels_num (Fin m e) c = Inr k" "0 \<le> k"
      "\<lfloor>real (length c) * fval m e\<rfloor> \<le> k" "k \<le> \<lceil>real (length c) * fval m e\<rceil>"
      "length (index_for_pruning A c k) = nat k"
      "select_tensor A (Fin m e) (nm, labels, c) =
         Inr (map (\<lambda>i. labels ! i) (index_for_pruning A c k))"
    by blast
  have "spec_selects_k k (nm, labels, c) (index_for_pruning A c k)
      (map (\<lambda>i. labels ! i) (index_for_pruning A c k))"
    using p(2,5) index_for_pruning_distinct [OF ok, of k] index_for_pruning_bound [OF ok, of _ k]
      index_for_pruning_values [OF ok p(2)]
    by (simp add: spec_selects_k_def)
  with p(1,3,4,6) show ?thesis unfolding spec_k_def by blast
qed

lemma select_tensor_floor_zero:
  assumes r: "in_unit (Fin m e)" and len: "length c < 2 ^ 53"
    and ok: "argsort_ok A c" and lab: "length c \<le> length labels"
    and z: "\<lfloor>real (length c) * fval m e\<rfloor> = 0"
  shows "\<exists>out. select_tensor A (Fin m e) (nm, labels, c) = Inr out \<and> length out \<le> 1"
proof -
  from select_tensor_unit [OF r len ok lab, of nm] obtain k where
    p: "0 \<le> k" "k \<le> \<lceil>real (length c) * fval m e\<rceil>"
      "length (index_for_pruning A c k) = nat k"
      "select_tensor A (Fin m e) (nm, labels, c) =
         Inr (map (\<lambda>i. labels ! i) (index_for_pruning A c k))"
    by blast
  have "\<lceil>real (length c) * fval m e\<rceil> - \<lfloor>real (length c) * fval m e\<rfloor> \<le> 1"
    by (rule ceiling_diff_floor_le_1)
  with p(2) z have "k \<le> 1" by linarith
  then have "length (map (\<lambda>i. labels ! i) (index_for_pruning A c k)) \<le> 1"
    using p(1,3) by simp
  with p(4) show ?thesis by blast
qed

section \<open>The loop on the notebook state\<close>







section \<open>The claims\<close>

subsection \<open>Lowest scores first\<close>

text \<open>
  C3. For every tensor the cell processes, each criteria value at a selected position is
  less than or equal to each criteria value at a position that is not selected: the
  selected labels are those of the lowest scores. This holds for every ratio, whenever
  the tensor's step returns; \<open>idx\<close> is the array \<^verbatim>\<open>index_for_pruning\<close>.
\<close>

theorem lowest_scores_selected:
  assumes "argsort_ok A c" and "select_tensor A r (nm, labels, c) = Inr out"
  shows "\<exists>idx. out = map (\<lambda>i. labels ! i) idx \<and>
           (\<forall>i \<in> set idx. i < length c \<and> i < length labels) \<and>
           (\<forall>i \<in> set idx. \<forall>j < length c. j \<notin> set idx \<longrightarrow> c ! i \<le> c ! j)"
proof -
  from select_tensor_Inr [OF assms(2)] obtain k where
    l: "\<forall>i \<in> set (index_for_pruning A c k). i < length labels" and
    o: "out = map (\<lambda>i. labels ! i) (index_for_pruning A c k)"
    by blast
  have b: "\<And>i. i \<in> set (index_for_pruning A c k) \<Longrightarrow> i < length c"
    using assms(1) by (rule index_for_pruning_bound)
  have m: "\<And>i j. i \<in> set (index_for_pruning A c k) \<Longrightarrow> j < length c \<Longrightarrow>
             j \<notin> set (index_for_pruning A c k) \<Longrightarrow> c ! i \<le> c ! j"
    using assms(1) by (rule index_for_pruning_lowest)
  show ?thesis using o l b m by blast
qed

theorem lowest_scores_selected_witness:
  "select_tensor stable_argsort (Fin 1 (- 1)) (''features.1'', [10, 11, 12, 13], [0.5, 0.1, 0.9, 0.3]) =
     Inr [11, 13] \<and>
   (\<exists>idx. [11, 13] = map (\<lambda>i. [10, 11, 12, 13 :: int] ! i) idx \<and>
      (\<forall>i \<in> set idx. i < length [0.5, 0.1, 0.9, 0.3 :: real] \<and> i < length [10, 11, 12, 13 :: int]) \<and>
      (\<forall>i \<in> set idx. \<forall>j < length [0.5, 0.1, 0.9, 0.3 :: real]. j \<notin> set idx \<longrightarrow>
         [0.5, 0.1, 0.9, 0.3 :: real] ! i \<le> [0.5, 0.1, 0.9, 0.3] ! j))"
proof -
  have s: "select_tensor stable_argsort (Fin 1 (- 1))
      (''features.1'', [10, 11, 12, 13], [0.5, 0.1, 0.9, 0.3]) = Inr [11, 13]"
    by code_simp
  from lowest_scores_selected [OF stable_argsort_ok s] s show ?thesis by blast
qed

subsection \<open>Label lookup\<close>

text \<open>
  C9. For every tensor whose label sequence is at least as long as its criteria sequence,
  every position at which the cell reads the label sequence comes from the argsort of the
  criteria and is smaller than the criteria length, so the lookup, an option-returning
  access, returns a value at each of them and the read of the labels does not raise.
  This holds for every stop \<open>k\<close> of the slice.
\<close>

theorem label_lookup_in_range:
  assumes "argsort_ok A c" and "length c \<le> length labels"
  shows "(\<forall>i \<in> set (index_for_pruning A c k).
            i < length c \<and> getitem labels i = Some (labels ! i)) \<and>
         take_labels labels (index_for_pruning A c k) =
           Inr (map (\<lambda>i. labels ! i) (index_for_pruning A c k))"
proof -
  have b: "i < length c" if "i \<in> set (index_for_pruning A c k)" for i
    using assms(1) that by (rule index_for_pruning_bound)
  then have l: "i < length labels" if "i \<in> set (index_for_pruning A c k)" for i
    using that assms(2) by fastforce
  show ?thesis using b l by (simp add: getitem_def take_labels_Inr)
qed

theorem label_lookup_in_range_witness:
  "argsort_ok stable_argsort [0.5, 0.1, 0.9, 0.3] \<and>
   index_for_pruning stable_argsort [0.5, 0.1, 0.9, 0.3] 2 = [1, 3] \<and>
   getitem [10, 11, 12, 13 :: int] 1 = Some 11 \<and>
   getitem [10, 11, 12, 13 :: int] 3 = Some 13 \<and>
   take_labels [10, 11, 12, 13] (index_for_pruning stable_argsort [0.5, 0.1, 0.9, 0.3] 2) =
     Inr [11, 13]"
proof -
  have ok: "argsort_ok stable_argsort [0.5, 0.1, 0.9, 0.3]" by (rule stable_argsort_ok)
  have len: "length [0.5, 0.1, 0.9, 0.3 :: real] \<le> length [10, 11, 12, 13 :: int]" by simp
  have idx: "index_for_pruning stable_argsort [0.5, 0.1, 0.9, 0.3] 2 = [1, 3]" by code_simp
  show ?thesis
    using label_lookup_in_range [OF ok len, of 2] ok unfolding idx by simp
qed

subsection \<open>One tensor at a time\<close>

text \<open>
  C7. Selection is independent per tensor. The output of the cell on a concatenation of
  inputs is the concatenation of its outputs on the parts (an exception of a part being
  the exception of the whole, the first one in list order); the output on one triple is
  what the loop body selects from it, a function of the labels, the criteria and the
  ratio only (the tensor name is not read); so whenever the cell returns, its output is
  the concatenation over the triples of each tensor's selected labels.
\<close>

theorem selection_per_tensor:
  "get_labels_for_equal_pruning A (gs1 @ gs2) r =
     (case get_labels_for_equal_pruning A gs1 r of
        Inl err \<Rightarrow> Inl err
      | Inr out1 \<Rightarrow>
          (case get_labels_for_equal_pruning A gs2 r of
             Inl err \<Rightarrow> Inl err
           | Inr out2 \<Rightarrow> Inr (out1 @ out2))) \<and>
   get_labels_for_equal_pruning A [] r = Inr [] \<and>
   get_labels_for_equal_pruning A [(nm, labels, c)] r = select_tensor A r (nm', labels, c) \<and>
   (get_labels_for_equal_pruning A gs r = Inr out \<longrightarrow>
      (\<exists>sels. map (select_tensor A r) gs = map Inr sels \<and> out = concat sels))"
  using get_labels_append [of A gs1 gs2 r] get_labels_Nil [of A r]
    get_labels_single [of A "(nm, labels, c)" r] select_tensor_name [of A r nm labels c nm']
    get_labels_Inr [of A gs r out]
  by simp

theorem selection_per_tensor_witness:
  "get_labels_for_equal_pruning stable_argsort
     ([(''features.1'', [10, 11, 12, 13], [0.5, 0.1, 0.9, 0.3])] @
      [(''features.2'', [20, 21], [0.7, 0.2])]) (Fin 1 (- 1)) = Inr [11, 13, 21] \<and>
   get_labels_for_equal_pruning stable_argsort
     [(''features.1'', [10, 11, 12, 13], [0.5, 0.1, 0.9, 0.3])] (Fin 1 (- 1)) = Inr [11, 13] \<and>
   get_labels_for_equal_pruning stable_argsort
     [(''features.2'', [20, 21], [0.7, 0.2])] (Fin 1 (- 1)) = Inr [21] \<and>
   map (select_tensor stable_argsort (Fin 1 (- 1)))
     [(''features.1'', [10, 11, 12, 13], [0.5, 0.1, 0.9, 0.3]), (''features.2'', [20, 21], [0.7, 0.2])] =
     map Inr [[11, 13], [21]]"
proof -
  have a: "get_labels_for_equal_pruning stable_argsort
     [(''features.1'', [10, 11, 12, 13], [0.5, 0.1, 0.9, 0.3])] (Fin 1 (- 1)) = Inr [11, 13]"
    by code_simp
  have b: "get_labels_for_equal_pruning stable_argsort
     [(''features.2'', [20, 21], [0.7, 0.2])] (Fin 1 (- 1)) = Inr [21]"
    by code_simp
  have c: "map (select_tensor stable_argsort (Fin 1 (- 1)))
     [(''features.1'', [10, 11, 12, 13], [0.5, 0.1, 0.9, 0.3]), (''features.2'', [20, 21], [0.7, 0.2])] =
     map Inr [[11, 13], [21]]"
    by code_simp
  show ?thesis
    using selection_per_tensor [of stable_argsort
        "[(''features.1'', [10, 11, 12, 13], [0.5, 0.1, 0.9, 0.3])]"
        "[(''features.2'', [20, 21], [0.7, 0.2])]" "Fin 1 (- 1)"] a b c
    by simp
qed

subsection \<open>The examples of the specification\<close>

text \<open>
  C8. On criteria = [0.5, 0.1, 0.9, 0.3], labels = [10, 11, 12, 13] and ratio = 0.5 (the
  double \<open>1 * 2 ^ - 1\<close>) the cell returns the labels 11 and 13, exactly the label set
  {11, 13}, whatever valid argsort numpy computes; on criteria = [], labels = [] and the
  same ratio it returns the empty selection.
\<close>

theorem spec_examples:
  assumes "argsort_ok A [0.5, 0.1, 0.9, 0.3]"
  shows "get_labels_for_equal_pruning A [(nm, [10, 11, 12, 13], [0.5, 0.1, 0.9, 0.3])] (Fin 1 (- 1)) =
           Inr [11, 13] \<and>
         set [11, 13 :: int] = {11, 13} \<and>
         get_labels_for_equal_pruning A [(nm', [], [])] (Fin 1 (- 1)) = Inr [] \<and>
         set ([] :: int list) = {}"
proof -
  define c :: "real list" where "c = [0.5, 0.1, 0.9, 0.3]"
  have k: "prune_channels_num (Fin 1 (- 1)) c = Inr 2" unfolding c_def by code_simp
  have i: "index_for_pruning A c 2 = [1, 3]"
    using argsort_example [OF assms] by (simp add: index_for_pruning_def slice_to_def c_def)
  have "select_tensor A (Fin 1 (- 1)) (nm, [10, 11, 12, 13], c) = take_labels [10, 11, 12, 13] [1, 3]"
    by (simp add: select_tensor_def k i)
  also have "\<dots> = Inr [11, 13]"
    by (simp add: take_labels_def getitem_def)
  finally have a: "get_labels_for_equal_pruning A [(nm, [10, 11, 12, 13], c)] (Fin 1 (- 1)) =
      Inr [11, 13]"
    by (simp add: get_labels_single)
  have "select_tensor A (Fin 1 (- 1)) (nm', [], []) = Inr []"
    using prune_channels_num_empty [of 1 "- 1"] by (rule select_tensor_zero)
  then have b: "get_labels_for_equal_pruning A [(nm', [], [])] (Fin 1 (- 1)) = Inr []"
    by (simp add: get_labels_single)
  show ?thesis using a b by (simp add: c_def)
qed

theorem spec_examples_witness:
  "argsort_ok stable_argsort [0.5, 0.1, 0.9, 0.3] \<and>
   get_labels_for_equal_pruning stable_argsort
     [(''features.1'', [10, 11, 12, 13], [0.5, 0.1, 0.9, 0.3])] (Fin 1 (- 1)) = Inr [11, 13] \<and>
   get_labels_for_equal_pruning stable_argsort [(''features.1'', [], [])] (Fin 1 (- 1)) = Inr []"
  using spec_examples [OF stable_argsort_ok, of "''features.1''" "''features.1''"]
    stable_argsort_ok [of "[0.5, 0.1, 0.9, 0.3]"]
  by simp

subsection \<open>The number of selected labels\<close>

text \<open>
  C2, as the code has it. For every ratio \<open>r\<close> in (0,1) and every tensor with \<open>n\<close> criteria,
  \<open>n < 2 ^ 53\<close>, and as many labels, the number of labels the cell selects from the tensor
  is the floor of the float product \<^verbatim>\<open>len(criteria) * pruning_ratio\<close>, the exact product
  \<open>n * r\<close> rounded to the nearest double. It is never below the floor of the exact
  product and never above its ceiling.
\<close>

theorem selected_count:
  assumes "in_unit (Fin m e)" and "length c < 2 ^ 53"
    and "argsort_ok A c" and "length labels = length c"
  shows "\<exists>q e' out. len_times_ratio c (Fin m e) = Inr (Fin q e') \<and>
           select_tensor A (Fin m e) (nm, labels, c) = Inr out \<and>
           int (length out) = \<lfloor>fval q e'\<rfloor> \<and>
           \<lfloor>real (length c) * fval m e\<rfloor> \<le> int (length out) \<and>
           int (length out) \<le> \<lceil>real (length c) * fval m e\<rceil>"
proof -
  have "length c \<le> length labels" using assms(4) by simp
  from select_tensor_unit [OF assms(1,2,3) this, of nm] obtain q e' k where
    p: "len_times_ratio c (Fin m e) = Inr (Fin q e')" "k = \<lfloor>fval q e'\<rfloor>" "0 \<le> k"
      "\<lfloor>real (length c) * fval m e\<rfloor> \<le> k" "k \<le> \<lceil>real (length c) * fval m e\<rceil>"
      "length (index_for_pruning A c k) = nat k"
      "select_tensor A (Fin m e) (nm, labels, c) =
         Inr (map (\<lambda>i. labels ! i) (index_for_pruning A c k))"
    by blast
  define out where "out = map (\<lambda>i. labels ! i) (index_for_pruning A c k)"
  have s: "select_tensor A (Fin m e) (nm, labels, c) = Inr out"
    using p(7) by (simp add: out_def)
  have lk: "int (length out) = k" using p(3,6) by (simp add: out_def)
  show ?thesis
  proof (intro exI conjI)
    show "len_times_ratio c (Fin m e) = Inr (Fin q e')" by (rule p(1))
    show "select_tensor A (Fin m e) (nm, labels, c) = Inr out" by (rule s)
    show "int (length out) = \<lfloor>fval q e'\<rfloor>" using lk p(2) by simp
    show "\<lfloor>real (length c) * fval m e\<rfloor> \<le> int (length out)" using lk p(4) by simp
    show "int (length out) \<le> \<lceil>real (length c) * fval m e\<rceil>" using lk p(5) by simp
  qed
qed

theorem selected_count_witness:
  "in_unit (Fin 6004799503160661 (- 54)) \<and>
   argsort_ok stable_argsort [0.5, 0.1, 0.9] \<and>
   len_times_ratio [0.5, 0.1, 0.9] (Fin 6004799503160661 (- 54)) = Inr (Fin (2 ^ 53) (- 53)) \<and>
   select_tensor stable_argsort (Fin 6004799503160661 (- 54))
     (''features.1'', [10, 11, 12], [0.5, 0.1, 0.9]) = Inr [11] \<and>
   \<lfloor>fval (2 ^ 53) (- 53)\<rfloor> = 1 \<and>
   \<lfloor>real (length [0.5, 0.1, 0.9 :: real]) * fval 6004799503160661 (- 54)\<rfloor> = 0 \<and>
   \<lceil>real (length [0.5, 0.1, 0.9 :: real]) * fval 6004799503160661 (- 54)\<rceil> = 1"
proof -
  have u: "in_unit (Fin 6004799503160661 (- 54))" by (simp add: in_unit_def fval_def)
  have l: "length [0.5, 0.1, 0.9 :: real] < 2 ^ 53" by simp
  have ok: "argsort_ok stable_argsort [0.5, 0.1, 0.9]" by (rule stable_argsort_ok)
  have e: "length [10, 11, 12 :: int] = length [0.5, 0.1, 0.9 :: real]" by simp
  have p: "len_times_ratio [0.5, 0.1, 0.9] (Fin 6004799503160661 (- 54)) =
      Inr (Fin (2 ^ 53) (- 53))"
    by code_simp
  have s: "select_tensor stable_argsort (Fin 6004799503160661 (- 54))
      (''features.1'', [10, 11, 12], [0.5, 0.1, 0.9]) = Inr [11]"
    by code_simp
  have f: "\<lfloor>fval (2 ^ 53) (- 53)\<rfloor> = 1" by (simp add: fval_def)
  have fl: "\<lfloor>real (length [0.5, 0.1, 0.9 :: real]) * fval 6004799503160661 (- 54)\<rfloor> = 0"
    by (simp add: fval_def)
  have ce: "\<lceil>real (length [0.5, 0.1, 0.9 :: real]) * fval 6004799503160661 (- 54)\<rceil> = 1"
    by (simp add: fval_def ceiling_eq_iff)
  from selected_count [OF u l ok e, of "''features.1''"] u ok p s f fl ce
  show ?thesis by blast
qed

text \<open>
  C2 as stated, with the floor of the exact product, fails. The ratio is the double
  nearest to 1/3, printed \<^verbatim>\<open>0.3333333333333333\<close>, which is below 1/3; three times it
  is below 1, its floor is 0; the float product is halfway between two doubles and rounds
  to \<^verbatim>\<open>1.0\<close>, so the cell selects one label of the three.
\<close>

theorem exact_floor_counterexample:
  "is_double (Fin 6004799503160661 (- 54)) \<and>
   in_unit (Fin 6004799503160661 (- 54)) \<and>
   select_tensor stable_argsort (Fin 6004799503160661 (- 54))
     (''features.1'', [10, 11, 12], [0.5, 0.1, 0.9]) = Inr [11] \<and>
   \<lfloor>real (length [0.5, 0.1, 0.9 :: real]) * fval 6004799503160661 (- 54)\<rfloor> = 0 \<and>
   int (length [11 :: int]) \<noteq>
     \<lfloor>real (length [0.5, 0.1, 0.9 :: real]) * fval 6004799503160661 (- 54)\<rfloor>"
proof -
  have d: "is_double (Fin 6004799503160661 (- 54))" by (simp add: is_double_def)
  have u: "in_unit (Fin 6004799503160661 (- 54))" by (simp add: in_unit_def fval_def)
  have s: "select_tensor stable_argsort (Fin 6004799503160661 (- 54))
      (''features.1'', [10, 11, 12], [0.5, 0.1, 0.9]) = Inr [11]"
    by code_simp
  have fl: "\<lfloor>real (length [0.5, 0.1, 0.9 :: real]) * fval 6004799503160661 (- 54)\<rfloor> = 0"
    by (simp add: fval_def)
  show ?thesis using d u s fl by simp
qed

subsection \<open>What the cell rejects\<close>

text \<open>
  C4, as the code has it. The cell checks neither the ratio nor the lengths. Its step on a
  tensor fails exactly when \<^verbatim>\<open>int(len(criteria) * pruning_ratio)\<close> raises, or, with
  IndexError, when a selected position lies beyond the end of the label sequence. With a
  valid argsort and a label sequence at least as long as the criteria sequence the second
  case does not occur; with a finite ratio (and \<open>n < 2 ^ 53\<close>) the first one is an
  OverflowError of an infinite product. The cell fails if and only if the step fails on
  one of the tensors.
\<close>

theorem failures_of_the_step:
  "(select_tensor A r (nm, labels, c) = Inl err \<longleftrightarrow>
      prune_channels_num r c = Inl err \<or>
      (err = IndexError \<and>
       (\<exists>k. prune_channels_num r c = Inr k \<and>
          (\<exists>i \<in> set (index_for_pruning A c k). length labels \<le> i)))) \<and>
   (argsort_ok A c \<longrightarrow> length c \<le> length labels \<longrightarrow>
      select_tensor A r (nm, labels, c) = Inl err \<longrightarrow>
      prune_channels_num r c = Inl err \<and> err \<noteq> IndexError) \<and>
   (length c < 2 ^ 53 \<longrightarrow> prune_channels_num (Fin m e) c = Inl err \<longrightarrow>
      err = OverflowError \<and>
      (fround (int (length c) * m) e = PInf \<or> fround (int (length c) * m) e = NInf)) \<and>
   ((\<exists>err. get_labels_for_equal_pruning A gs r = Inl err) \<longleftrightarrow>
      (\<exists>g \<in> set gs. \<exists>err. select_tensor A r g = Inl err))"
  using select_tensor_Inl_iff [of A r nm labels c err]
    select_tensor_no_IndexError [of A c labels r nm err]
    prune_channels_num_finite_error [of c m e err]
    get_labels_Inl_iff [of A gs r]
  by blast

theorem failures_of_the_step_witness:
  "select_tensor stable_argsort (Fin 1 (- 1)) (''features.1'', [10], [0.5, 0.1]) = Inl IndexError \<and>
   prune_channels_num (Fin 1 (- 1)) [0.5, 0.1] = Inr 1 \<and>
   index_for_pruning stable_argsort [0.5, 0.1] 1 = [1] \<and>
   select_tensor stable_argsort PInf (''features.1'', [10, 11], [0.5, 0.1]) = Inl OverflowError \<and>
   prune_channels_num PInf [0.5, 0.1] = Inl OverflowError \<and>
   prune_channels_num (Fin (2 ^ 52) 971) [0.5, 0.1, 0.9] = Inl OverflowError \<and>
   fround (int (length [0.5, 0.1, 0.9 :: real]) * 2 ^ 52) 971 = PInf \<and>
   get_labels_for_equal_pruning stable_argsort
     [(''features.1'', [10, 11], [0.5, 0.1]), (''features.2'', [10], [0.5, 0.1])] (Fin 1 (- 1)) =
     Inl IndexError"
proof -
  have ok: "argsort_ok stable_argsort [0.5, 0.1]" by (rule stable_argsort_ok)
  have a: "select_tensor stable_argsort (Fin 1 (- 1)) (''features.1'', [10], [0.5, 0.1]) =
      Inl IndexError"
    by code_simp
  have b: "prune_channels_num (Fin 1 (- 1)) [0.5, 0.1] = Inr 1" by code_simp
  have c: "index_for_pruning stable_argsort [0.5, 0.1] 1 = [1]" by code_simp
  have d: "select_tensor stable_argsort PInf (''features.1'', [10, 11], [0.5, 0.1]) =
      Inl OverflowError"
    by code_simp
  have l: "length [0.5, 0.1 :: real] \<le> length [10, 11 :: int]" by simp
  have f: "prune_channels_num (Fin (2 ^ 52) 971) [0.5, 0.1, 0.9] = Inl OverflowError"
    by code_simp
  have l3: "length [0.5, 0.1, 0.9 :: real] < 2 ^ 53" by simp
  have g: "get_labels_for_equal_pruning stable_argsort
      [(''features.1'', [10, 11], [0.5, 0.1]), (''features.2'', [10], [0.5, 0.1])] (Fin 1 (- 1)) =
      Inl IndexError"
    by code_simp
  note t1 = failures_of_the_step [where A = stable_argsort and r = PInf
      and nm = "''features.1''" and labels = "[10, 11]" and c = "[0.5, 0.1]"
      and err = OverflowError]
  note t2 = failures_of_the_step [where c = "[0.5, 0.1, 0.9]" and m = "2 ^ 52" and e = 971
      and err = OverflowError]
  have p: "prune_channels_num PInf [0.5, 0.1] = Inl OverflowError"
    using t1 ok l d by blast
  have q: "fround (int (length [0.5, 0.1, 0.9 :: real]) * 2 ^ 52) 971 = PInf"
    by code_simp
  show ?thesis using a b c d p f q g t2 by blast
qed

text \<open>
  C4 as stated fails: the cell returns a selection for the ratio 1.5 (all labels of the
  tensor), for the ratio - 0.5 (the negative stop of the slice counts from the end), and
  for a tensor with three labels and two criteria.
\<close>

theorem no_validation_counterexample:
  "\<not> in_unit (Fin 3 (- 1)) \<and>
   get_labels_for_equal_pruning stable_argsort
     [(''features.1'', [10, 11], [0.5, 0.1])] (Fin 3 (- 1)) = Inr [11, 10] \<and>
   \<not> in_unit (Fin (- 1) (- 1)) \<and>
   get_labels_for_equal_pruning stable_argsort
     [(''features.1'', [10, 11, 12, 13], [0.5, 0.1, 0.9, 0.3])] (Fin (- 1) (- 1)) = Inr [11, 13] \<and>
   length [10, 11, 12 :: int] \<noteq> length [0.5, 0.1 :: real] \<and>
   get_labels_for_equal_pruning stable_argsort
     [(''features.1'', [10, 11, 12], [0.5, 0.1])] (Fin 1 (- 1)) = Inr [11]"
proof -
  have a: "\<not> in_unit (Fin 3 (- 1))" by (simp add: in_unit_def fval_def)
  have b: "get_labels_for_equal_pruning stable_argsort
      [(''features.1'', [10, 11], [0.5, 0.1])] (Fin 3 (- 1)) = Inr [11, 10]"
    by code_simp
  have c: "\<not> in_unit (Fin (- 1) (- 1))" by (simp add: in_unit_def fval_def)
  have d: "get_labels_for_equal_pruning stable_argsort
      [(''features.1'', [10, 11, 12, 13], [0.5, 0.1, 0.9, 0.3])] (Fin (- 1) (- 1)) = Inr [11, 13]"
    by code_simp
  have e: "get_labels_for_equal_pruning stable_argsort
      [(''features.1'', [10, 11, 12], [0.5, 0.1])] (Fin 1 (- 1)) = Inr [11]"
    by code_simp
  show ?thesis using a b c d e by simp
qed

subsection \<open>Nothing selected, and never more than there is\<close>

text \<open>
  C6, as the code has it. For every tensor for which the number \<open>k\<close> that the cell
  computes, \<^verbatim>\<open>int(len(criteria) * pruning_ratio)\<close>, is 0, the cell selects no label from
  it; that is the case when the ratio is 0 and when the criteria sequence is empty (with
  a finite ratio). For a ratio in (0,1) and a tensor where the floor of the exact product
  \<open>n * r\<close> is 0, the cell selects at most one label. And for every ratio, in particular
  every ratio below 1, the number of labels selected from a tensor with \<open>n\<close> channels
  never exceeds \<open>n\<close>.
\<close>

theorem nothing_selected_when_zero:
  "(prune_channels_num r c = Inr 0 \<longrightarrow> select_tensor A r (nm, labels, c) = Inr []) \<and>
   (length c < 2 ^ 53 \<longrightarrow> prune_channels_num (Fin 0 e) c = Inr 0) \<and>
   prune_channels_num (Fin m e) [] = Inr 0 \<and>
   (argsort_ok A c \<longrightarrow> select_tensor A r (nm, labels, c) = Inr out \<longrightarrow>
      length out \<le> length c) \<and>
   (in_unit (Fin m' e') \<longrightarrow> length c < 2 ^ 53 \<longrightarrow> argsort_ok A c \<longrightarrow>
      length c \<le> length labels \<longrightarrow> \<lfloor>real (length c) * fval m' e'\<rfloor> = 0 \<longrightarrow>
      (\<exists>sel. select_tensor A (Fin m' e') (nm, labels, c) = Inr sel \<and> length sel \<le> 1))"
  using select_tensor_zero [of r c A nm labels] prune_channels_num_ratio_zero [of c e]
    prune_channels_num_empty [of m e] select_tensor_length_le [of A c r nm labels out]
    select_tensor_floor_zero [of m' e' c A labels nm]
  by blast

theorem nothing_selected_when_zero_witness:
  "prune_channels_num (Fin 1 (- 2)) [0.5, 0.1, 0.9] = Inr 0 \<and>
   select_tensor stable_argsort (Fin 1 (- 2)) (''features.1'', [10, 11, 12], [0.5, 0.1, 0.9]) = Inr [] \<and>
   length [0.5, 0.1, 0.9 :: real] < 2 ^ 53 \<and>
   prune_channels_num (Fin 0 0) [0.5, 0.1, 0.9] = Inr 0 \<and>
   prune_channels_num (Fin 1 (- 1)) [] = Inr 0 \<and>
   argsort_ok stable_argsort [0.5, 0.1, 0.9, 0.3] \<and>
   select_tensor stable_argsort (Fin 7 (- 3)) (''features.1'', [10, 11, 12, 13], [0.5, 0.1, 0.9, 0.3]) =
     Inr [11, 13, 10] \<and>
   length [11, 13, 10 :: int] \<le> length [0.5, 0.1, 0.9, 0.3 :: real] \<and>
   in_unit (Fin 1 (- 2)) \<and>
   \<lfloor>real (length [0.5, 0.1, 0.9 :: real]) * fval 1 (- 2)\<rfloor> = 0"
proof -
  have k: "prune_channels_num (Fin 1 (- 2)) [0.5, 0.1, 0.9] = Inr 0" by code_simp
  have l: "length [0.5, 0.1, 0.9 :: real] < 2 ^ 53" by simp
  have s: "select_tensor stable_argsort (Fin 7 (- 3))
      (''features.1'', [10, 11, 12, 13], [0.5, 0.1, 0.9, 0.3]) = Inr [11, 13, 10]"
    by code_simp
  have ok: "argsort_ok stable_argsort [0.5, 0.1, 0.9, 0.3]" by (rule stable_argsort_ok)
  have u: "in_unit (Fin 1 (- 2))" by (simp add: in_unit_def fval_def)
  have f: "\<lfloor>real (length [0.5, 0.1, 0.9 :: real]) * fval 1 (- 2)\<rfloor> = 0"
    by (simp add: fval_def)
  note t1 = nothing_selected_when_zero [where r = "Fin 1 (- 2)" and c = "[0.5, 0.1, 0.9]"
      and A = stable_argsort and nm = "''features.1''" and labels = "[10, 11, 12]"
      and e = 0 and m = 1 and m' = 1 and e' = "- 2"]
  note t2 = nothing_selected_when_zero [where r = "Fin 7 (- 3)" and c = "[0.5, 0.1, 0.9, 0.3]"
      and A = stable_argsort and nm = "''features.1''" and labels = "[10, 11, 12, 13]"
      and e = "- 1" and m = 1 and out = "[11, 13, 10]"]
  show ?thesis using t1 t2 k l s ok u f by simp
qed

text \<open>
  C6 as stated, with \<open>k\<close> the floor of the exact product, fails. The ratio is the double
  nearest to 1/6, printed \<^verbatim>\<open>0.16666666666666666\<close>, which is below 1/6; six times it is
  below 1, its floor is 0; the float product rounds to \<^verbatim>\<open>1.0\<close>, and the cell selects one
  label of the six.
\<close>

theorem zero_floor_counterexample:
  "is_double (Fin 6004799503160661 (- 55)) \<and>
   in_unit (Fin 6004799503160661 (- 55)) \<and>
   \<lfloor>real (length [0.6, 0.2, 0.4, 0.8, 0.1, 0.3 :: real]) * fval 6004799503160661 (- 55)\<rfloor> = 0 \<and>
   prune_channels_num (Fin 6004799503160661 (- 55)) [0.6, 0.2, 0.4, 0.8, 0.1, 0.3] = Inr 1 \<and>
   select_tensor stable_argsort (Fin 6004799503160661 (- 55))
     (''features.2'', [20, 21, 22, 23, 24, 25], [0.6, 0.2, 0.4, 0.8, 0.1, 0.3]) = Inr [24] \<and>
   [24 :: int] \<noteq> []"
proof -
  have d: "is_double (Fin 6004799503160661 (- 55))" by (simp add: is_double_def)
  have u: "in_unit (Fin 6004799503160661 (- 55))" by (simp add: in_unit_def fval_def)
  have f: "\<lfloor>real (length [0.6, 0.2, 0.4, 0.8, 0.1, 0.3 :: real]) *
      fval 6004799503160661 (- 55)\<rfloor> = 0"
    by (simp add: fval_def)
  have k: "prune_channels_num (Fin 6004799503160661 (- 55)) [0.6, 0.2, 0.4, 0.8, 0.1, 0.3] = Inr 1"
    by code_simp
  have s: "select_tensor stable_argsort (Fin 6004799503160661 (- 55))
     (''features.2'', [20, 21, 22, 23, 24, 25], [0.6, 0.2, 0.4, 0.8, 0.1, 0.3]) = Inr [24]"
    by code_simp
  show ?thesis using d u f k s by simp
qed

subsection \<open>A function of its inputs\<close>




subsection \<open>The reference algorithm\<close>

text \<open>
  C1, as the code has it. For every input sequence of (tensor name, labels, criteria)
  triples with as many labels as criteria in each triple (fewer than \<open>2 ^ 53\<close>), and every
  ratio \<open>r\<close> in (0,1), the cell returns, and its output is the concatenation over the
  triples of selections \<open>out\<close> made by the steps of the reference algorithm from the
  number \<open>k\<close> that the cell computes: \<open>k\<close> is the floor of the float product, at least the
  reference \<open>floor(len(criteria) * r)\<close> and at most the ceiling of that exact product; the
  positions \<open>idx\<close> are \<open>k\<close> distinct positions of the criteria, the criteria values there
  are the first \<open>k\<close> values of the criteria sorted ascending, and \<open>out\<close> is the \<open>k\<close> labels
  at these positions. Where \<open>k\<close> is the reference \<open>k\<close>, the selection is the one of the
  reference algorithm.
\<close>

theorem follows_reference_algorithm:
  assumes "in_unit (Fin m e)"
    and "\<forall>g \<in> set gs. case g of (nm, labels, c) \<Rightarrow>
           length labels = length c \<and> length c < 2 ^ 53 \<and> argsort_ok A c"
  shows "\<exists>sels. map (select_tensor A (Fin m e)) gs = map Inr sels \<and>
           get_labels_for_equal_pruning A gs (Fin m e) = Inr (concat sels) \<and>
           list_all2 (\<lambda>g out. case g of (nm, labels, c) \<Rightarrow>
               \<exists>k. prune_channels_num (Fin m e) c = Inr k \<and>
                 spec_k (fval m e) c \<le> k \<and> k \<le> \<lceil>real (length c) * fval m e\<rceil> \<and>
                 spec_selects_k k g (index_for_pruning A c k) out \<and>
                 (k = spec_k (fval m e) c \<longrightarrow>
                    spec_selects (fval m e) g (index_for_pruning A c k) out)) gs sels"
proof -
  have "\<exists>out. select_tensor A (Fin m e) g = Inr out \<and>
      (case g of (nm, labels, c) \<Rightarrow>
         \<exists>k. prune_channels_num (Fin m e) c = Inr k \<and>
           spec_k (fval m e) c \<le> k \<and> k \<le> \<lceil>real (length c) * fval m e\<rceil> \<and>
           spec_selects_k k g (index_for_pruning A c k) out \<and>
           (k = spec_k (fval m e) c \<longrightarrow>
              spec_selects (fval m e) g (index_for_pruning A c k) out))"
    if "g \<in> set gs" for g
  proof -
    obtain nm labels c where g: "g = (nm, labels, c)" by (cases g) auto
    with that assms(2) have w: "length labels = length c" "length c < 2 ^ 53" "argsort_ok A c"
      by auto
    from spec_selects_k_unit [OF assms(1) w(2,3,1), of nm]
    show ?thesis unfolding g by (auto simp: spec_selects_def)
  qed
  from selections_exist [of gs A "Fin m e", OF this] obtain sels where
    s: "map (select_tensor A (Fin m e)) gs = map Inr sels"
      "list_all2 (\<lambda>g out. case g of (nm, labels, c) \<Rightarrow>
          \<exists>k. prune_channels_num (Fin m e) c = Inr k \<and>
            spec_k (fval m e) c \<le> k \<and> k \<le> \<lceil>real (length c) * fval m e\<rceil> \<and>
            spec_selects_k k g (index_for_pruning A c k) out \<and>
            (k = spec_k (fval m e) c \<longrightarrow>
               spec_selects (fval m e) g (index_for_pruning A c k) out)) gs sels"
    by blast
  from get_labels_concat [OF s(1)] s show ?thesis by blast
qed

theorem follows_reference_algorithm_witness:
  "in_unit (Fin 1 (- 1)) \<and>
   argsort_ok stable_argsort [0.5, 0.1, 0.9, 0.3] \<and> argsort_ok stable_argsort [0.7, 0.2] \<and>
   get_labels_for_equal_pruning stable_argsort
     [(''features.1'', [10, 11, 12, 13], [0.5, 0.1, 0.9, 0.3]), (''features.2'', [20, 21], [0.7, 0.2])]
     (Fin 1 (- 1)) = Inr [11, 13, 21] \<and>
   prune_channels_num (Fin 1 (- 1)) [0.5, 0.1, 0.9, 0.3] = Inr 2 \<and>
   spec_k (fval 1 (- 1)) [0.5, 0.1, 0.9, 0.3] = 2 \<and>
   index_for_pruning stable_argsort [0.5, 0.1, 0.9, 0.3] 2 = [1, 3] \<and>
   spec_selects_k 2 (''features.1'', [10, 11, 12, 13], [0.5, 0.1, 0.9, 0.3]) [1, 3] [11, 13] \<and>
   spec_selects_k 1 (''features.2'', [20, 21], [0.7, 0.2]) [1] [21]"
proof -
  define gs :: "gate list" where "gs =
    [(''features.1'', [10, 11, 12, 13], [0.5, 0.1, 0.9, 0.3]), (''features.2'', [20, 21], [0.7, 0.2])]"
  have u: "in_unit (Fin 1 (- 1))" by (simp add: in_unit_def fval_def)
  have ok1: "argsort_ok stable_argsort [0.5, 0.1, 0.9, 0.3]" by (rule stable_argsort_ok)
  have ok2: "argsort_ok stable_argsort [0.7, 0.2]" by (rule stable_argsort_ok)
  have w: "\<forall>g \<in> set gs. case g of (nm, labels, c) \<Rightarrow>
      length labels = length c \<and> length c < 2 ^ 53 \<and> argsort_ok stable_argsort c"
    by (simp add: gs_def stable_argsort_ok)
  have a: "get_labels_for_equal_pruning stable_argsort gs (Fin 1 (- 1)) = Inr [11, 13, 21]"
    unfolding gs_def by code_simp
  have b: "prune_channels_num (Fin 1 (- 1)) [0.5, 0.1, 0.9, 0.3] = Inr 2" by code_simp
  have b': "spec_k (fval 1 (- 1)) [0.5, 0.1, 0.9, 0.3] = 2" by (simp add: spec_k_def fval_def)
  have c: "index_for_pruning stable_argsort [0.5, 0.1, 0.9, 0.3] 2 = [1, 3]" by code_simp
  have d: "spec_selects_k 2 (''features.1'', [10, 11, 12, 13], [0.5, 0.1, 0.9, 0.3])
      [1, 3] [11, 13]"
    by code_simp
  have e: "spec_selects_k 1 (''features.2'', [20, 21], [0.7, 0.2]) [1] [21]"
    by code_simp
  from follows_reference_algorithm [OF u w] u ok1 ok2 a b b' c d e
  show ?thesis unfolding gs_def by blast
qed

text \<open>
  C1 as stated fails. With six criteria and the ratio \<^verbatim>\<open>0.3333333333333333\<close>, the double
  below 1/3, the reference algorithm computes \<open>k = floor(6 * r) = 1\<close>; the float product
  rounds to \<^verbatim>\<open>2.0\<close>, the cell computes \<open>k = 2\<close> and selects two labels.
\<close>

theorem reference_k_counterexample:
  "is_double (Fin 6004799503160661 (- 54)) \<and>
   in_unit (Fin 6004799503160661 (- 54)) \<and>
   length [20, 21, 22, 23, 24, 25 :: int] = length [0.6, 0.2, 0.4, 0.8, 0.1, 0.3 :: real] \<and>
   prune_channels_num (Fin 6004799503160661 (- 54)) [0.6, 0.2, 0.4, 0.8, 0.1, 0.3] = Inr 2 \<and>
   spec_k (fval 6004799503160661 (- 54)) [0.6, 0.2, 0.4, 0.8, 0.1, 0.3] = 1 \<and>
   index_for_pruning stable_argsort [0.6, 0.2, 0.4, 0.8, 0.1, 0.3] 2 = [4, 1] \<and>
   select_tensor stable_argsort (Fin 6004799503160661 (- 54))
     (''features.2'', [20, 21, 22, 23, 24, 25], [0.6, 0.2, 0.4, 0.8, 0.1, 0.3]) = Inr [24, 21] \<and>
   \<not> spec_selects (fval 6004799503160661 (- 54))
     (''features.2'', [20, 21, 22, 23, 24, 25], [0.6, 0.2, 0.4, 0.8, 0.1, 0.3]) [4, 1] [24, 21]"
proof -
  have d: "is_double (Fin 6004799503160661 (- 54))" by (simp add: is_double_def)
  have u: "in_unit (Fin 6004799503160661 (- 54))" by (simp add: in_unit_def fval_def)
  have k: "prune_channels_num (Fin 6004799503160661 (- 54)) [0.6, 0.2, 0.4, 0.8, 0.1, 0.3] = Inr 2"
    by code_simp
  have sk: "spec_k (fval 6004799503160661 (- 54)) [0.6, 0.2, 0.4, 0.8, 0.1, 0.3] = 1"
    by (simp add: spec_k_def fval_def floor_eq_iff)
  have i: "index_for_pruning stable_argsort [0.6, 0.2, 0.4, 0.8, 0.1, 0.3] 2 = [4, 1]"
    by code_simp
  have s: "select_tensor stable_argsort (Fin 6004799503160661 (- 54))
     (''features.2'', [20, 21, 22, 23, 24, 25], [0.6, 0.2, 0.4, 0.8, 0.1, 0.3]) = Inr [24, 21]"
    by code_simp
  have n: "\<not> spec_selects (fval 6004799503160661 (- 54))
     (''features.2'', [20, 21, 22, 23, 24, 25], [0.6, 0.2, 0.4, 0.8, 0.1, 0.3]) [4, 1] [24, 21]"
    unfolding spec_selects_def prod.case sk by (simp add: spec_selects_k_def)
  show ?thesis using d u k sk i s n by simp
qed

subsection \<open>Distinct positions, and the length of the output\<close>

text \<open>
  C10, as the code has it. For every tensor (as many labels as criteria, fewer than
  \<open>2 ^ 53\<close>) and every ratio \<open>r\<close> in (0,1), the \<open>k\<close> positions the cell chooses are pairwise
  distinct positions of the tensor's label sequence, so the tensor contributes exactly
  \<open>k\<close> labels; and the length of the output of the cell is the sum over the tensors of
  \<open>k\<close>, the floor of the float product \<^verbatim>\<open>len(criteria) * pruning_ratio\<close>, which is at
  least the floor and at most the ceiling of the exact product \<open>n * r\<close>.
\<close>

theorem distinct_positions_and_total:
  assumes "in_unit (Fin m e)"
    and "\<forall>g \<in> set gs. case g of (nm, labels, c) \<Rightarrow>
           length labels = length c \<and> length c < 2 ^ 53 \<and> argsort_ok A c"
  shows "(\<forall>g \<in> set gs. case g of (nm, labels, c) \<Rightarrow>
            \<exists>k. prune_channels_num (Fin m e) c = Inr k \<and> 0 \<le> k \<and>
              distinct (index_for_pruning A c k) \<and>
              (\<forall>i \<in> set (index_for_pruning A c k). i < length labels) \<and>
              length (index_for_pruning A c k) = nat k \<and>
              select_tensor A (Fin m e) g =
                Inr (map (\<lambda>i. labels ! i) (index_for_pruning A c k))) \<and>
         (\<exists>ks out. list_all2 (\<lambda>g k. case g of (nm, labels, c) \<Rightarrow>
                \<exists>q e'. len_times_ratio c (Fin m e) = Inr (Fin q e') \<and> int k = \<lfloor>fval q e'\<rfloor> \<and>
                  \<lfloor>real (length c) * fval m e\<rfloor> \<le> int k \<and>
                  int k \<le> \<lceil>real (length c) * fval m e\<rceil>) gs ks \<and>
            get_labels_for_equal_pruning A gs (Fin m e) = Inr out \<and>
            length out = sum_list ks)"
proof -
  define r where "r = Fin m e"
  have gate: "\<exists>q e' k. len_times_ratio c r = Inr (Fin q e') \<and>
      prune_channels_num r c = Inr k \<and> k = \<lfloor>fval q e'\<rfloor> \<and> 0 \<le> k \<and>
      \<lfloor>real (length c) * fval m e\<rfloor> \<le> k \<and> k \<le> \<lceil>real (length c) * fval m e\<rceil> \<and>
      length (index_for_pruning A c k) = nat k \<and>
      select_tensor A r (nm, labels, c) = Inr (map (\<lambda>i. labels ! i) (index_for_pruning A c k))"
    if "(nm, labels, c) \<in> set gs" for nm labels c
  proof -
    from that assms(2) have w: "length labels = length c" "length c < 2 ^ 53" "argsort_ok A c"
      by auto
    have "length c \<le> length labels" using w(1) by simp
    from select_tensor_unit [OF assms(1) w(2,3) this, of nm]
    show ?thesis unfolding r_def by blast
  qed
  have first: "\<forall>g \<in> set gs. case g of (nm, labels, c) \<Rightarrow>
      \<exists>k. prune_channels_num r c = Inr k \<and> 0 \<le> k \<and>
        distinct (index_for_pruning A c k) \<and>
        (\<forall>i \<in> set (index_for_pruning A c k). i < length labels) \<and>
        length (index_for_pruning A c k) = nat k \<and>
        select_tensor A r g = Inr (map (\<lambda>i. labels ! i) (index_for_pruning A c k))"
  proof
    fix g assume g: "g \<in> set gs"
    obtain nm labels c where t: "g = (nm, labels, c)" by (cases g) auto
    from g assms(2) have w: "length labels = length c" "argsort_ok A c" by (auto simp: t)
    from gate [of nm labels c] g obtain k where
      k: "prune_channels_num r c = Inr k" "0 \<le> k" "length (index_for_pruning A c k) = nat k"
        "select_tensor A r (nm, labels, c) = Inr (map (\<lambda>i. labels ! i) (index_for_pruning A c k))"
      unfolding t by blast
    have d: "distinct (index_for_pruning A c k)" using w(2) by (rule index_for_pruning_distinct)
    have b: "\<forall>i \<in> set (index_for_pruning A c k). i < length labels"
      using index_for_pruning_bound [OF w(2), of _ k] w(1) by simp
    show "case g of (nm, labels, c) \<Rightarrow>
      \<exists>k. prune_channels_num r c = Inr k \<and> 0 \<le> k \<and>
        distinct (index_for_pruning A c k) \<and>
        (\<forall>i \<in> set (index_for_pruning A c k). i < length labels) \<and>
        length (index_for_pruning A c k) = nat k \<and>
        select_tensor A r g = Inr (map (\<lambda>i. labels ! i) (index_for_pruning A c k))"
      unfolding t using k d b by auto
  qed
  have "\<exists>out. select_tensor A r g = Inr out \<and>
      (case g of (nm, labels, c) \<Rightarrow>
         \<exists>q e'. len_times_ratio c r = Inr (Fin q e') \<and> int (length out) = \<lfloor>fval q e'\<rfloor> \<and>
           \<lfloor>real (length c) * fval m e\<rfloor> \<le> int (length out) \<and>
           int (length out) \<le> \<lceil>real (length c) * fval m e\<rceil>)"
    if "g \<in> set gs" for g
  proof -
    obtain nm labels c where t: "g = (nm, labels, c)" by (cases g) auto
    from gate [of nm labels c] that obtain q e' k where
      k: "len_times_ratio c r = Inr (Fin q e')" "k = \<lfloor>fval q e'\<rfloor>" "0 \<le> k"
        "\<lfloor>real (length c) * fval m e\<rfloor> \<le> k" "k \<le> \<lceil>real (length c) * fval m e\<rceil>"
        "length (index_for_pruning A c k) = nat k"
        "select_tensor A r (nm, labels, c) = Inr (map (\<lambda>i. labels ! i) (index_for_pruning A c k))"
      unfolding t by blast
    have lk: "int (length (map (\<lambda>i. labels ! i) (index_for_pruning A c k))) = k"
      using k(3,6) by simp
    have "\<exists>q e'. len_times_ratio c r = Inr (Fin q e') \<and>
        int (length (map (\<lambda>i. labels ! i) (index_for_pruning A c k))) = \<lfloor>fval q e'\<rfloor> \<and>
        \<lfloor>real (length c) * fval m e\<rfloor> \<le> int (length (map (\<lambda>i. labels ! i) (index_for_pruning A c k))) \<and>
        int (length (map (\<lambda>i. labels ! i) (index_for_pruning A c k))) \<le> \<lceil>real (length c) * fval m e\<rceil>"
      unfolding lk using k(1,2,4,5) by blast
    with k(7) show ?thesis unfolding t by auto
  qed
  from selections_exist [of gs A r, OF this] obtain sels where
    s: "map (select_tensor A r) gs = map Inr sels"
      "list_all2 (\<lambda>g out. case g of (nm, labels, c) \<Rightarrow>
          \<exists>q e'. len_times_ratio c r = Inr (Fin q e') \<and> int (length out) = \<lfloor>fval q e'\<rfloor> \<and>
           \<lfloor>real (length c) * fval m e\<rfloor> \<le> int (length out) \<and>
           int (length out) \<le> \<lceil>real (length c) * fval m e\<rceil>) gs sels"
    by blast
  have l: "list_all2 (\<lambda>g k. case g of (nm, labels, c) \<Rightarrow>
      \<exists>q e'. len_times_ratio c r = Inr (Fin q e') \<and> int k = \<lfloor>fval q e'\<rfloor> \<and>
        \<lfloor>real (length c) * fval m e\<rfloor> \<le> int k \<and>
        int k \<le> \<lceil>real (length c) * fval m e\<rceil>) gs (map length sels)"
    using s(2) by (simp add: list_all2_map2)
  have o: "get_labels_for_equal_pruning A gs r = Inr (concat sels)"
    using s(1) by (rule get_labels_concat)
  have "length (concat sels) = sum_list (map length sels)" by (rule length_concat_sum)
  with l o have "\<exists>ks out. list_all2 (\<lambda>g k. case g of (nm, labels, c) \<Rightarrow>
                \<exists>q e'. len_times_ratio c r = Inr (Fin q e') \<and> int k = \<lfloor>fval q e'\<rfloor> \<and>
                  \<lfloor>real (length c) * fval m e\<rfloor> \<le> int k \<and>
                  int k \<le> \<lceil>real (length c) * fval m e\<rceil>) gs ks \<and>
            get_labels_for_equal_pruning A gs r = Inr out \<and>
            length out = sum_list ks"
    by blast
  with first show ?thesis unfolding r_def by blast
qed

theorem distinct_positions_and_total_witness:
  "in_unit (Fin 6004799503160661 (- 54)) \<and>
   get_labels_for_equal_pruning stable_argsort
     [(''features.1'', [10, 11, 12], [0.5, 0.1, 0.9]),
      (''features.2'', [20, 21, 22, 23, 24, 25], [0.6, 0.2, 0.4, 0.8, 0.1, 0.3])]
     (Fin 6004799503160661 (- 54)) = Inr [11, 24, 21] \<and>
   len_times_ratio [0.5, 0.1, 0.9] (Fin 6004799503160661 (- 54)) = Inr (Fin (2 ^ 53) (- 53)) \<and>
   len_times_ratio [0.6, 0.2, 0.4, 0.8, 0.1, 0.3] (Fin 6004799503160661 (- 54)) =
     Inr (Fin (2 ^ 53) (- 52)) \<and>
   \<lfloor>fval (2 ^ 53) (- 53)\<rfloor> = 1 \<and> \<lfloor>fval (2 ^ 53) (- 52)\<rfloor> = 2 \<and>
   length [11, 24, 21 :: int] = sum_list [1, 2]"
proof -
  define gs :: "gate list" where "gs =
    [(''features.1'', [10, 11, 12], [0.5, 0.1, 0.9]),
      (''features.2'', [20, 21, 22, 23, 24, 25], [0.6, 0.2, 0.4, 0.8, 0.1, 0.3])]"
  have u: "in_unit (Fin 6004799503160661 (- 54))" by (simp add: in_unit_def fval_def)
  have w: "\<forall>g \<in> set gs. case g of (nm, labels, c) \<Rightarrow>
      length labels = length c \<and> length c < 2 ^ 53 \<and> argsort_ok stable_argsort c"
    by (simp add: gs_def stable_argsort_ok)
  have a: "get_labels_for_equal_pruning stable_argsort gs (Fin 6004799503160661 (- 54)) =
      Inr [11, 24, 21]"
    unfolding gs_def by code_simp
  have b: "len_times_ratio [0.5, 0.1, 0.9] (Fin 6004799503160661 (- 54)) =
      Inr (Fin (2 ^ 53) (- 53))"
    by code_simp
  have c: "len_times_ratio [0.6, 0.2, 0.4, 0.8, 0.1, 0.3] (Fin 6004799503160661 (- 54)) =
      Inr (Fin (2 ^ 53) (- 52))"
    by code_simp
  have d: "\<lfloor>fval (2 ^ 53) (- 53)\<rfloor> = 1" "\<lfloor>fval (2 ^ 53) (- 52)\<rfloor> = 2"
    by (simp_all add: fval_def)
  have e: "length [11, 24, 21 :: int] = sum_list [1, 2]" by simp
  from distinct_positions_and_total [OF u w] u a b c d e
  show ?thesis unfolding gs_def by blast
qed

text \<open>
  C10 as stated, with the sum of the floors of the exact products, fails. With tensors of
  three and of six criteria and the ratio \<^verbatim>\<open>0.3333333333333333\<close>, the floors of the
  exact products are 0 and 1; the cell selects one and two labels, three in all.
\<close>

theorem total_length_counterexample:
  "in_unit (Fin 6004799503160661 (- 54)) \<and>
   get_labels_for_equal_pruning stable_argsort
     [(''features.1'', [10, 11, 12], [0.5, 0.1, 0.9]),
      (''features.2'', [20, 21, 22, 23, 24, 25], [0.6, 0.2, 0.4, 0.8, 0.1, 0.3])]
     (Fin 6004799503160661 (- 54)) = Inr [11, 24, 21] \<and>
   \<lfloor>real (length [0.5, 0.1, 0.9 :: real]) * fval 6004799503160661 (- 54)\<rfloor> +
   \<lfloor>real (length [0.6, 0.2, 0.4, 0.8, 0.1, 0.3 :: real]) * fval 6004799503160661 (- 54)\<rfloor> = 1 \<and>
   int (length [11, 24, 21 :: int]) \<noteq>
     \<lfloor>real (length [0.5, 0.1, 0.9 :: real]) * fval 6004799503160661 (- 54)\<rfloor> +
     \<lfloor>real (length [0.6, 0.2, 0.4, 0.8, 0.1, 0.3 :: real]) * fval 6004799503160661 (- 54)\<rfloor>"
proof -
  have u: "in_unit (Fin 6004799503160661 (- 54))" by (simp add: in_unit_def fval_def)
  have a: "get_labels_for_equal_pruning stable_argsort
     [(''features.1'', [10, 11, 12], [0.5, 0.1, 0.9]),
      (''features.2'', [20, 21, 22, 23, 24, 25], [0.6, 0.2, 0.4, 0.8, 0.1, 0.3])]
     (Fin 6004799503160661 (- 54)) = Inr [11, 24, 21]"
    by code_simp
  have f: "\<lfloor>real (length [0.5, 0.1, 0.9 :: real]) * fval 6004799503160661 (- 54)\<rfloor> = 0"
    "\<lfloor>real (length [0.6, 0.2, 0.4, 0.8, 0.1, 0.3 :: real]) * fval 6004799503160661 (- 54)\<rfloor> = 1"
    by (simp_all add: fval_def floor_eq_iff)
  show ?thesis using u a f by simp
qed

end
